theory Spec2Isabelle
  imports Main "HOL-Library.Multiset"
begin

section \<open>JSON values and the engine's view of their properties\<close>

text \<open>
  A note file is parsed JSON.  Objects keep their properties in enumeration order with
  pairwise distinct names; numbers are the integers the export contains (timestamps), a
  number with a fraction or an exponent has no counterpart here.
\<close>

datatype json =
    JNull
  | JBool bool
  | JNum int
  | JStr string
  | JArr "json list"
  | JObj "(string \<times> json) list"

type_synonym entry = "string \<times> json"

fun decimal :: "nat \<Rightarrow> string" where
  "decimal n =
     (if n < 10 then [''0123456789'' ! n]
      else decimal (n div 10) @ [''0123456789'' ! (n mod 10)])"

declare decimal.simps [simp del]

text \<open>
  \<open>Object.keys(v)\<close> paired with \<open>v[key]\<close>: the properties of an object, the indices
  of an array in ascending order written in decimal, nothing for a primitive.
\<close>

fun ownProperties :: "json \<Rightarrow> (string \<times> json) list" where
  "ownProperties (JObj ps) = ps"
| "ownProperties (JArr xs) = zip (map decimal [0..<length xs]) xs"
| "ownProperties _ = []"

text \<open>\<open>value !== null && typeof value === "object"\<close>\<close>

fun isObject :: "json \<Rightarrow> bool" where
  "isObject (JObj _) = True"
| "isObject (JArr _) = True"
| "isObject _ = False"

section \<open>Configuration constants of the note converter\<close>

definition propertiesToIgnore :: "string list" where
  "propertiesToIgnore =
     [''color'', ''isTrashed'', ''isPinned'', ''isArchived'', ''textContent'',
      ''textContentHtml'']"

definition orderedProperties :: "string list" where
  "orderedProperties = [''title'', ''createdTimestampUsec'', ''userEditedTimestampUsec'']"

section \<open>recursivelyGetProperties\<close>

text \<open>
  \<open>propertyName ? `${propertyName}.${property}` : property\<close>: an absent and an empty
  prefix are both falsy.
\<close>

fun currentPathOf :: "string option \<Rightarrow> string \<Rightarrow> string" where
  "currentPathOf None property = property"
| "currentPathOf (Some propertyName) property =
     (if propertyName = [] then property else propertyName @ ''.'' @ property)"

fun jsonSize :: "json \<Rightarrow> nat" where
  "jsonSize (JArr xs) = Suc (sum_list (map jsonSize xs))"
| "jsonSize (JObj ps) = Suc (sum_list (map (\<lambda>p. jsonSize (snd p)) ps))"
| "jsonSize _ = 1"

definition propsSize :: "(string \<times> json) list \<Rightarrow> nat" where
  "propsSize ps = sum_list (map (\<lambda>p. jsonSize (snd p)) ps)"

text \<open>
  The \<open>for\<close> loop over the properties of \<open>inputObj\<close>.  The accumulator is the insertion
  ordered \<open>Set\<close> of one-property records; each record is a fresh object, so the set never
  merges two of them and is a list of (path, value) pairs.
\<close>

function getPropertiesLoop ::
  "(string \<times> json) list \<Rightarrow> entry list \<Rightarrow> string option \<Rightarrow> entry list" where
  "getPropertiesLoop [] accProperties propertyName = accProperties"
| "getPropertiesLoop ((property, v) # rest) accProperties propertyName =
     (if property \<in> set propertiesToIgnore
      then getPropertiesLoop rest accProperties propertyName
      else
        let currentPath = currentPathOf propertyName property in
        if isObject v
        then getPropertiesLoop rest
               (getPropertiesLoop (ownProperties v) accProperties (Some currentPath))
               propertyName
        else getPropertiesLoop rest (accProperties @ [(currentPath, v)]) propertyName)"
  by pat_completeness auto
termination
proof -
  have pos: "0 < jsonSize v" for v
    by (cases v) simp_all
  have own: "propsSize (ownProperties v) < jsonSize v" if "isObject v" for v
  proof (cases v)
    case (JArr xs)
    have "map (\<lambda>p. jsonSize (snd p)) (zip (map decimal [0..<length xs]) xs) = map jsonSize xs"
      by (rule nth_equalityI) simp_all
    with JArr show ?thesis by (simp add: propsSize_def)
  qed (use that in \<open>simp_all add: propsSize_def\<close>)
  show ?thesis
    by (relation "measure (\<lambda>(ps, acc, pn). propsSize ps)")
       (auto simp: propsSize_def pos dest: own)
qed

definition recursivelyGetProperties ::
  "json \<Rightarrow> entry list \<Rightarrow> string option \<Rightarrow> entry list" where
  "recursivelyGetProperties inputObj accProperties propertyName =
     getPropertiesLoop (ownProperties inputObj) accProperties propertyName"

section \<open>orderMetadata\<close>

subsection \<open>The collation behind localeCompare\<close>

text \<open>
  Modelled from the spec: \<open>localeCompare\<close> with \<open>numeric: true, sensitivity: "base"\<close> is
  the runtime's collation, not code of the repository.  The spec describes it as a
  comparison by path string that treats embedded digit runs numerically and is
  case-insensitive.  A string is read as a sequence of collation keys (class, weight):
  a maximal run of digits is one key of class 1 weighing its numeric value, a letter is a
  key of class 2 weighing its position in the alphabet whatever its case, any other
  character is a key of class 0 weighing its code.  Keys compare by class, then weight;
  key sequences compare lexicographically, a proper prefix first.  This is the root
  collation on ASCII letters and digits; the order among the other characters is that of
  their codes here, and no statement below depends on it.
\<close>

type_synonym ckey = "nat \<times> nat"

definition isDigit :: "char \<Rightarrow> bool" where
  "isDigit c = (c \<in> set ''0123456789'')"

definition digitValue :: "char \<Rightarrow> nat" where
  "digitValue c = of_char c - 48"

definition charKey :: "char \<Rightarrow> ckey" where
  "charKey c =
     (let n = of_char c :: nat in
      if 65 \<le> n \<and> n \<le> 90 then (2, n - 65)
      else if 97 \<le> n \<and> n \<le> 122 then (2, n - 97)
      else (0, n))"

fun keysFrom :: "nat option \<Rightarrow> string \<Rightarrow> ckey list" where
  "keysFrom None [] = []"
| "keysFrom (Some n) [] = [(1, n)]"
| "keysFrom run (c # cs) =
     (if isDigit c
      then keysFrom (Some (10 * (case run of None \<Rightarrow> 0 | Some n \<Rightarrow> n) + digitValue c)) cs
      else (case run of None \<Rightarrow> [] | Some n \<Rightarrow> [(1, n)]) @ charKey c # keysFrom None cs)"

definition collationKeys :: "string \<Rightarrow> ckey list" where
  "collationKeys s = keysFrom None s"

definition keyLess :: "ckey \<Rightarrow> ckey \<Rightarrow> bool" where
  "keyLess x y = (fst x < fst y \<or> (fst x = fst y \<and> snd x < snd y))"

fun compareKeys :: "ckey list \<Rightarrow> ckey list \<Rightarrow> int" where
  "compareKeys [] [] = 0"
| "compareKeys [] (y # ys) = - 1"
| "compareKeys (x # xs) [] = 1"
| "compareKeys (x # xs) (y # ys) =
     (if keyLess x y then - 1 else if keyLess y x then 1 else compareKeys xs ys)"

definition localeCompare :: "string \<Rightarrow> string \<Rightarrow> int" where
  "localeCompare a b = compareKeys (collationKeys a) (collationKeys b)"

subsection \<open>The comparator and the sort\<close>

datatype error =
    InvalidSortKey    \<comment> \<open>\<open>Invalid metadata -- aKey or bKey is undefined\<close>\<close>
  | InvalidKey        \<comment> \<open>\<open>Invalid metadata -- key is undefined\<close>\<close>
  | TypeError         \<comment> \<open>a property read or a method call on a value that has none\<close>
  | ReadError         \<comment> \<open>the note file cannot be read or is not JSON\<close>
  | LookupError       \<comment> \<open>the profile lookup failed\<close>

text \<open>\<open>orderedProperties.forEach((prop, index) => orderMap.set(prop, index))\<close>\<close>

definition orderMapOf :: "string list \<Rightarrow> (string \<rightharpoonup> nat)" where
  "orderMapOf props =
     fold (\<lambda>(prop, index) orderMap. orderMap(prop \<mapsto> index))
       (zip props [0..<length props]) Map.empty"

text \<open>
  The comparator handed to \<open>sort\<close>.  The key of an entry is its path; an empty path is
  falsy and makes the comparator throw.
\<close>

definition compareEntries :: "(string \<rightharpoonup> nat) \<Rightarrow> entry \<Rightarrow> entry \<Rightarrow> error + int" where
  "compareEntries orderMap a b =
     (let aKey = fst a; bKey = fst b in
      if aKey = [] \<or> bKey = [] then Inl InvalidSortKey
      else
        let aSortKey = (case orderMap aKey of Some i \<Rightarrow> int i | None \<Rightarrow> - 1);
            bSortKey = (case orderMap bKey of Some i \<Rightarrow> int i | None \<Rightarrow> - 1)
        in
        if aSortKey \<noteq> - 1 \<and> bSortKey \<noteq> - 1 then Inr (aSortKey - bSortKey)
        else if aSortKey \<noteq> - 1 then Inr (- 1)
        else if bSortKey \<noteq> - 1 then Inr 1
        else Inr (localeCompare aKey bKey))"

text \<open>
  \<open>Array.prototype.sort\<close> is stable, and for a consistent comparator every stable sort
  returns the same array; insertion from the right stands for the engine's algorithm.  An
  exception of the comparator ends the sort.
\<close>

fun insertBy :: "('a \<Rightarrow> 'a \<Rightarrow> error + int) \<Rightarrow> 'a \<Rightarrow> 'a list \<Rightarrow> error + 'a list" where
  "insertBy cmp x [] = Inr [x]"
| "insertBy cmp x (y # ys) =
     (case cmp x y of
        Inl e \<Rightarrow> Inl e
      | Inr c \<Rightarrow>
          if c \<le> 0 then Inr (x # y # ys)
          else (case insertBy cmp x ys of Inl e \<Rightarrow> Inl e | Inr r \<Rightarrow> Inr (y # r)))"

fun sortBy :: "('a \<Rightarrow> 'a \<Rightarrow> error + int) \<Rightarrow> 'a list \<Rightarrow> error + 'a list" where
  "sortBy cmp [] = Inr []"
| "sortBy cmp (x # xs) =
     (case sortBy cmp xs of Inl e \<Rightarrow> Inl e | Inr sortedItems \<Rightarrow> insertBy cmp x sortedItems)"

subsection \<open>The result object\<close>

text \<open>
  \<open>result\<close> starts as \<open>{}\<close> and receives \<open>result[key] = item[key]\<close> for each sorted
  item.  An ordinary object keeps its own properties in creation order, and assigning to
  a name it already has changes the value in place.  The name \<open>__proto__\<close> is special
  while the object inherits the accessor of that name: the assignment then goes to the
  accessor, which replaces the prototype when the value is an object or null and does
  nothing otherwise, and no own property is created.  \<open>proto = None\<close> is the initial
  prototype of \<open>{}\<close>.
\<close>

record jsObject =
  proto :: "json option"
  props :: "(string \<times> json) list"

definition emptyObject :: jsObject where
  "emptyObject = \<lparr>proto = None, props = []\<rparr>"

fun inheritsProtoAccessor :: "json option \<Rightarrow> bool" where
  "inheritsProtoAccessor None = True"
| "inheritsProtoAccessor (Some JNull) = False"
| "inheritsProtoAccessor (Some (JObj ps)) = (''__proto__'' \<notin> set (map fst ps))"
| "inheritsProtoAccessor (Some _) = True"

definition objectSet :: "jsObject \<Rightarrow> string \<Rightarrow> json \<Rightarrow> jsObject" where
  "objectSet obj key v =
     (if key \<in> set (map fst (props obj))
      then obj\<lparr>props := map (\<lambda>p. if fst p = key then (key, v) else p) (props obj)\<rparr>
      else if key = ''__proto__'' \<and> inheritsProtoAccessor (proto obj)
      then (if isObject v \<or> v = JNull then obj\<lparr>proto := Some v\<rparr> else obj)
      else obj\<lparr>props := props obj @ [(key, v)]\<rparr>)"

text \<open>
  \<open>Object.entries\<close> lists the own properties whose names are array indices (canonical
  decimal numerals below \<open>2^32 - 1\<close>) first, in ascending numeric order, then the others
  in creation order.
\<close>

definition natOfDigits :: "string \<Rightarrow> nat" where
  "natOfDigits s = foldl (\<lambda>n c. 10 * n + digitValue c) 0 s"

definition isArrayIndex :: "string \<Rightarrow> bool" where
  "isArrayIndex s =
     (s \<noteq> [] \<and> list_all isDigit s \<and> (s = ''0'' \<or> hd s \<noteq> CHR ''0'')
      \<and> natOfDigits s < 4294967295)"

definition objectEntries :: "jsObject \<Rightarrow> (string \<times> json) list" where
  "objectEntries obj =
     sort_key (\<lambda>p. natOfDigits (fst p)) (filter (\<lambda>p. isArrayIndex (fst p)) (props obj))
     @ filter (\<lambda>p. \<not> isArrayIndex (fst p)) (props obj)"

subsection \<open>orderMetadata\<close>

fun buildResult :: "entry list \<Rightarrow> jsObject \<Rightarrow> error + jsObject" where
  "buildResult [] result = Inr result"
| "buildResult (item # sortedItems) result =
     (if fst item = [] then Inl InvalidKey
      else buildResult sortedItems (objectSet result (fst item) (snd item)))"

text \<open>
  The function with the priority list as a parameter; the source reads the module
  constant \<open>orderedProperties\<close>.
\<close>

definition orderMetadataWith :: "string list \<Rightarrow> entry list \<Rightarrow> error + jsObject" where
  "orderMetadataWith priorityKeys metadata =
     (case sortBy (compareEntries (orderMapOf priorityKeys)) metadata of
        Inl e \<Rightarrow> Inl e
      | Inr sortedItems \<Rightarrow> buildResult sortedItems emptyObject)"

definition orderMetadata :: "entry list \<Rightarrow> error + jsObject" where
  "orderMetadata metadata = orderMetadataWith orderedProperties metadata"

section \<open>The contact pipeline\<close>

subsection \<open>formatPhoneNumber\<close>

text \<open>
  \<open>phone\<close> is the validation routine of the \<open>phone\<close> package, a parameter here.  Its
  result is a union: invalid (with a null number), or valid with the normalized number.
\<close>

datatype phoneResult = PhoneInvalid | PhoneValid string

text \<open>\<open>.replace(/^\+1/, "")\<close>\<close>

definition stripPlusOne :: "string \<Rightarrow> string" where
  "stripPlusOne s = (if take 2 s = ''+1'' then drop 2 s else s)"

text \<open>
  \<open>.replace(/(\d{3})(\d{3})(\d{4})/, "($1) $2-$3")\<close>: the pattern has no anchor and no
  global flag, so the leftmost run of ten digits is rewritten, wherever it starts.
\<close>

fun formatTenDigits :: "string \<Rightarrow> string" where
  "formatTenDigits [] = []"
| "formatTenDigits (c # cs) =
     (if 10 \<le> length (c # cs) \<and> list_all isDigit (take 10 (c # cs))
      then ''('' @ take 3 (c # cs) @ '') '' @ take 3 (drop 3 (c # cs)) @ ''-''
           @ take 4 (drop 6 (c # cs)) @ drop 10 (c # cs)
      else c # formatTenDigits cs)"

definition formatPhoneNumber :: "(string \<Rightarrow> phoneResult) \<Rightarrow> string \<Rightarrow> string option" where
  "formatPhoneNumber phone phoneNumber =
     (case phone phoneNumber of
        PhoneInvalid \<Rightarrow> None
      | PhoneValid normalized \<Rightarrow> Some (formatTenDigits (stripPlusOne normalized)))"

subsection \<open>The lookup result and the output record\<close>

record contactInfo =
  ci_emails :: "string list option"
  ci_phones :: "string list option"

record workExperience =
  company :: "string option"
  position :: "string option"

text \<open>
  The fields of a profile that the script reads.  \<open>public_identifier = None\<close> stands for
  any value whose \<open>typeof\<close> is not \<open>"string"\<close>; an absent optional field is \<open>None\<close>.
\<close>

record contact =
  provider :: string
  public_identifier :: "string option"
  first_name :: "string option"
  last_name :: "string option"
  contact_info :: "contactInfo option"
  work_experience :: "workExperience list option"
  profile_picture_url :: "string option"

record outputItem =
  fullName :: "string option"
  profileUrl :: "string option"
  emails :: "string list"
  phones :: "string list"
  currentCompanyRole :: "string option"

text \<open>Truthiness of an optional string: absent and empty are falsy.\<close>

fun truthyString :: "string option \<Rightarrow> bool" where
  "truthyString None = False"
| "truthyString (Some s) = (s \<noteq> [])"

text \<open>\<open>s || null\<close> for a string \<open>s\<close>\<close>

definition orNull :: "string \<Rightarrow> string option" where
  "orNull s = (if s = [] then None else Some s)"

definition toLowerCase :: "string \<Rightarrow> string" where
  "toLowerCase s =
     map (\<lambda>c. case map_of (zip ''ABCDEFGHIJKLMNOPQRSTUVWXYZ'' ''abcdefghijklmnopqrstuvwxyz'') c of
               Some l \<Rightarrow> l
             | None \<Rightarrow> c) s"

definition phonesOf :: "(string \<Rightarrow> phoneResult) \<Rightarrow> contact \<Rightarrow> string list" where
  "phonesOf phone c =
     (case contact_info c of
        None \<Rightarrow> []
      | Some info \<Rightarrow>
          (case ci_phones info of
             None \<Rightarrow> []
           | Some ps \<Rightarrow>
               map the (filter (\<lambda>phoneNum. phoneNum \<noteq> None)
                         (map (\<lambda>phoneNum. formatPhoneNumber phone phoneNum) ps))))"

definition emailsOf :: "contact \<Rightarrow> string list" where
  "emailsOf c =
     (case contact_info c of
        None \<Rightarrow> []
      | Some info \<Rightarrow>
          (case ci_emails info of None \<Rightarrow> [] | Some es \<Rightarrow> map toLowerCase es))"

definition currentCompanyRoleOf :: "contact \<Rightarrow> string option" where
  "currentCompanyRoleOf c =
     (case work_experience c of
        Some (w # _) \<Rightarrow>
          if truthyString (company w) \<and> truthyString (position w)
          then Some (the (company w) @ '' - '' @ the (position w))
          else None
      | _ \<Rightarrow> None)"

text \<open>
  The record pushed to \<open>outputData\<close>, or nothing when the profile is not a LinkedIn one
  with a string identifier.
\<close>

definition toOutputItem :: "(string \<Rightarrow> phoneResult) \<Rightarrow> contact \<Rightarrow> outputItem option" where
  "toOutputItem phone c =
     (case public_identifier c of
        Some pid \<Rightarrow>
          if provider c = ''LINKEDIN''
          then Some \<lparr>fullName =
                       (if truthyString (first_name c) \<and> truthyString (last_name c)
                        then Some (the (first_name c) @ '' '' @ the (last_name c))
                        else None),
                     profileUrl = orNull (''https://www.linkedin.com/in/'' @ pid),
                     emails = emailsOf c,
                     phones = phonesOf phone c,
                     currentCompanyRole = currentCompanyRoleOf c\<rparr>
          else None
      | None \<Rightarrow> None)"

subsection \<open>The main loop\<close>

text \<open>\<open>url.split("/in/")\<close>, the current piece being collected in reverse.\<close>

function splitIn :: "string \<Rightarrow> string \<Rightarrow> string list" where
  "splitIn piece [] = [rev piece]"
| "splitIn piece (c # cs) =
     (if take 4 (c # cs) = ''/in/''
      then rev piece # splitIn [] (drop 4 (c # cs))
      else splitIn (c # piece) cs)"
  by pat_completeness auto
termination
  by (relation "measure (\<lambda>(piece, s). length s)") auto

text \<open>\<open>url.split("/in/")[1]\<close>; \<open>None\<close> is \<open>undefined\<close>.\<close>

definition profileUrnOf :: "string \<Rightarrow> string option" where
  "profileUrnOf url = (case splitIn [] url of _ # urn # _ \<Rightarrow> Some urn | _ \<Rightarrow> None)"

text \<open>
  What the loop does, in order: console output, the lookup, the pacing delay
  (\<open>Bun.sleep(5000 + Math.random() * 1000)\<close>, its length left out).
\<close>

datatype event =
    LogInvalidUrl string
  | GetProfile string
  | LogRecordAdded string
  | WarnNotValid string
  | LogLookupError string
  | Sleep

record scrapeState =
  outputData :: "outputItem list"
  trace :: "event list"

text \<open>
  One iteration.  \<open>getProfile\<close> is the lookup of the external service: \<open>Inl\<close> when it
  throws.  The \<open>catch\<close> logs and goes on; the delay is the last statement of the \<open>try\<close>
  block.
\<close>

definition stepUrl ::
  "(string \<Rightarrow> phoneResult) \<Rightarrow> (string \<Rightarrow> error + contact) \<Rightarrow> scrapeState \<Rightarrow> string
     \<Rightarrow> scrapeState" where
  "stepUrl phone getProfile st url =
     (if \<not> truthyString (profileUrnOf url)
      then st\<lparr>trace := trace st @ [LogInvalidUrl url]\<rparr>
      else
        let profileUrn = the (profileUrnOf url) in
        case getProfile profileUrn of
          Inl err \<Rightarrow> st\<lparr>trace := trace st @ [GetProfile profileUrn, LogLookupError url]\<rparr>
        | Inr c \<Rightarrow>
            (case toOutputItem phone c of
               Some item \<Rightarrow>
                 st\<lparr>outputData := outputData st @ [item],
                    trace := trace st @ [GetProfile profileUrn, LogRecordAdded url, Sleep]\<rparr>
             | None \<Rightarrow>
                 st\<lparr>trace := trace st @ [GetProfile profileUrn, WarnNotValid url, Sleep]\<rparr>))"

definition scrape ::
  "(string \<Rightarrow> phoneResult) \<Rightarrow> (string \<Rightarrow> error + contact) \<Rightarrow> string list \<Rightarrow> scrapeState" where
  "scrape phone getProfile recruiterLinkedInURLs =
     fold (\<lambda>url st. stepUrl phone getProfile st url) recruiterLinkedInURLs
       \<lparr>outputData = [], trace = []\<rparr>"

section \<open>The note converter\<close>

subsection \<open>Values as text\<close>

text \<open>Truthiness of a property read from the record; \<open>None\<close> is \<open>undefined\<close>.\<close>

fun truthy :: "json option \<Rightarrow> bool" where
  "truthy None = False"
| "truthy (Some JNull) = False"
| "truthy (Some (JBool b)) = b"
| "truthy (Some (JNum n)) = (n \<noteq> 0)"
| "truthy (Some (JStr s)) = (s \<noteq> [])"
| "truthy (Some _) = True"

text \<open>\<open>title.replace(/\/|\\|\:|\?/g, "_")\<close>\<close>

definition normalizeTitle :: "string \<Rightarrow> string" where
  "normalizeTitle title =
     map (\<lambda>c. if c = CHR ''/'' \<or> c = CHR 0x5C \<or> c = CHR '':'' \<or> c = CHR ''?''
               then CHR ''_'' else c) title"

definition showInt :: "int \<Rightarrow> string" where
  "showInt n = (if n < 0 then ''-'' @ decimal (nat (- n)) else decimal (nat n))"

fun joinWith :: "string \<Rightarrow> string list \<Rightarrow> string" where
  "joinWith sep [] = []"
| "joinWith sep [s] = s"
| "joinWith sep (s # t # ss) = s @ sep @ joinWith sep (t # ss)"

text \<open>
  \<open>String(v)\<close>, as a template literal applies it: an array is its elements joined by
  commas, null among them as the empty string; an object is \<open>[object Object]\<close>.
\<close>

fun stringOf :: "json \<Rightarrow> string" where
  "stringOf JNull = ''null''"
| "stringOf (JBool b) = (if b then ''true'' else ''false'')"
| "stringOf (JNum n) = showInt n"
| "stringOf (JStr s) = s"
| "stringOf (JArr xs) = joinWith '','' (map (\<lambda>x. if x = JNull then [] else stringOf x) xs)"
| "stringOf (JObj ps) = ''[object Object]''"

definition interpolate :: "json option \<Rightarrow> string" where
  "interpolate v = (case v of None \<Rightarrow> ''undefined'' | Some x \<Rightarrow> stringOf x)"

text \<open>
  \<open>JSON.stringify\<close> without indentation.  A string is quoted, with the quote, the
  backslash and the control characters escaped.
\<close>

definition escapeChar :: "char \<Rightarrow> string" where
  "escapeChar c =
     (let n = of_char c :: nat in
      if c = CHR 0x22 then [CHR 0x5C, CHR 0x22]
      else if c = CHR 0x5C then [CHR 0x5C, CHR 0x5C]
      else if n = 8 then [CHR 0x5C, CHR ''b'']
      else if n = 9 then [CHR 0x5C, CHR ''t'']
      else if n = 10 then [CHR 0x5C, CHR ''n'']
      else if n = 12 then [CHR 0x5C, CHR ''f'']
      else if n = 13 then [CHR 0x5C, CHR ''r'']
      else if n < 32
      then [CHR 0x5C, CHR ''u'', CHR ''0'', CHR ''0'',
            ''0123456789abcdef'' ! (n div 16), ''0123456789abcdef'' ! (n mod 16)]
      else [c])"

definition quoteString :: "string \<Rightarrow> string" where
  "quoteString s = [CHR 0x22] @ concat (map escapeChar s) @ [CHR 0x22]"

fun jsonStringify :: "json \<Rightarrow> string" where
  "jsonStringify JNull = ''null''"
| "jsonStringify (JBool b) = (if b then ''true'' else ''false'')"
| "jsonStringify (JNum n) = showInt n"
| "jsonStringify (JStr s) = quoteString s"
| "jsonStringify (JArr xs) = ''['' @ joinWith '','' (map jsonStringify xs) @ '']''"
| "jsonStringify (JObj ps) =
     ''{'' @ joinWith '','' (map (\<lambda>p. quoteString (fst p) @ '':'' @ jsonStringify (snd p)) ps)
     @ ''}''"

fun formatMetadataValue :: "json \<Rightarrow> string" where
  "formatMetadataValue JNull = []"
| "formatMetadataValue (JStr s) = s"
| "formatMetadataValue (JNum n) = showInt n"
| "formatMetadataValue (JBool b) = (if b then ''true'' else ''false'')"
| "formatMetadataValue v = jsonStringify v"

subsection \<open>convertNoteToMarkdown\<close>

text \<open>
  The note is the list of its own properties.  \<open>metadata\<close> is a \<open>Set\<close>, always truthy,
  so the metadata section is always written; \<open>orderMetadata\<close> may throw.
\<close>

definition convertNoteToMarkdown :: "(string \<times> json) list \<Rightarrow> error + string" where
  "convertNoteToMarkdown noteJson =
     (let metadata = recursivelyGetProperties (JObj noteJson) [] None;
          markdown = ''# '' @ interpolate (map_of noteJson ''title'') @ [CHR 0x0A, CHR 0x0A]
                     @ interpolate (map_of noteJson ''textContent'') @ [CHR 0x0A]
      in case orderMetadata metadata of
           Inl e \<Rightarrow> Inl e
         | Inr orderedMetadata \<Rightarrow>
             Inr (markdown @ [CHR 0x0A] @ ''## Metadata from Google Keep'' @ [CHR 0x0A]
                  @ concat (map (\<lambda>p. ''*'' @ fst p @ ''*: '' @ formatMetadataValue (snd p)
                                      @ [CHR 0x0A])
                              (objectEntries orderedMetadata))))"

subsection \<open>The main loop\<close>

record config =
  dryRun :: bool
  testOneNote :: bool
  shouldDeleteOriginalNotes :: bool
  noteInputDir :: string
  noteOutputDir :: string

datatype effect = ConsoleLog string | WriteFile string string | DeleteFile string

record runState =
  notesArchivedCount :: nat
  notesTrashedCount :: nat
  notesUnsortedCount :: nat
  effects :: "effect list"

definition emit :: "effect list \<Rightarrow> runState \<Rightarrow> runState" where
  "emit es st = st\<lparr>effects := effects st @ es\<rparr>"

text \<open>\<open>noteJson.title = v\<close>: in place when the record has the property, else added last.\<close>

definition assignTitle :: "(string \<times> json) list \<Rightarrow> json \<Rightarrow> (string \<times> json) list" where
  "assignTitle noteJson v =
     (if ''title'' \<in> set (map fst noteJson)
      then map (\<lambda>p. if fst p = ''title'' then (''title'', v) else p) noteJson
      else noteJson @ [(''title'', v)])"

text \<open>
  The three-way branch on the flags of the note, with its counter, its log lines and its
  write.
\<close>

definition routeNote ::
  "config \<Rightarrow> runState \<Rightarrow> json option \<Rightarrow> json option \<Rightarrow> string \<Rightarrow> string \<Rightarrow> runState" where
  "routeNote cfg st isTrashed isArchived title markdown =
     (if truthy isTrashed
      then emit ([ConsoleLog ''  Note is trashed, moving to trash directory'']
                 @ (if \<not> dryRun cfg
                    then [WriteFile (noteOutputDir cfg @ ''/trash/'' @ title @ ''.md'') markdown]
                    else [ConsoleLog ''  DRY RUN: Would move note to trash directory'']))
             (st\<lparr>notesTrashedCount := notesTrashedCount st + 1\<rparr>)
      else if truthy isArchived
      then emit ([ConsoleLog ''  Note is archived, moving to archive directory'']
                 @ (if \<not> dryRun cfg
                    then [WriteFile (noteOutputDir cfg @ ''/archive/'' @ title @ ''.md'') markdown]
                    else [ConsoleLog ''  DRY RUN: Would move note to archive directory'']))
             (st\<lparr>notesArchivedCount := notesArchivedCount st + 1\<rparr>)
      else emit ([ConsoleLog
                    ''  Note is not archived or trashed, moving to unsorted output directory'']
                 @ (if \<not> dryRun cfg
                    then [WriteFile (noteOutputDir cfg @ ''/unsorted/'' @ title @ ''.md'') markdown]
                    else [ConsoleLog
                            ''  DRY RUN: Would move note to unsorted output directory'']))
             (st\<lparr>notesUnsortedCount := notesUnsortedCount st + 1\<rparr>))"

definition deleteOriginal :: "config \<Rightarrow> runState \<Rightarrow> string \<Rightarrow> string \<Rightarrow> runState" where
  "deleteOriginal cfg st notePath title =
     (if shouldDeleteOriginalNotes cfg
      then (if \<not> dryRun cfg
            then emit [ConsoleLog (''  Deleting note: '' @ title), DeleteFile notePath] st
            else emit [ConsoleLog (''  DRY RUN: Would delete note: '' @ title)] st)
      else st)"

text \<open>
  One iteration of the loop for the element \<open>note\<close> of \<open>notesToProcess\<close>; \<open>None\<close> is the
  \<open>undefined\<close> that \<open>jsonNotes[0]\<close> gives for an empty array.  \<open>readJson\<close> is
  \<open>Bun.file(path).json()\<close>: \<open>None\<close> when it rejects.  Nothing catches an exception, so
  the first one ends the run; the state returned with it holds what was done before.
  Writing and deleting a file are taken to succeed.

  The module is strict code.  Reading \<open>title\<close> from null throws; on a primitive it gives
  \<open>undefined\<close>, and the assignment that follows throws.  When the title is falsy and
  \<open>note\<close> is \<open>undefined\<close> the title becomes \<open>undefined\<close>, and \<open>normalizeTitle\<close>
  throws on it as on every value that is not a string.
\<close>

definition processNote ::
  "config \<Rightarrow> (string \<Rightarrow> json option) \<Rightarrow> runState \<Rightarrow> string option
     \<Rightarrow> runState \<times> error option" where
  "processNote cfg readJson st note =
     (let noteName = (case note of None \<Rightarrow> ''undefined'' | Some n \<Rightarrow> n);
          notePath = noteInputDir cfg @ ''/'' @ noteName;
          st1 = emit [ConsoleLog (''Processing note: '' @ noteName)] st
      in case readJson notePath of
           None \<Rightarrow> (st1, Some ReadError)
         | Some v \<Rightarrow>
             if \<not> isObject v then (st1, Some TypeError)
             else
               let noteJson0 = ownProperties v;
                   titled =
                     (if \<not> truthy (map_of noteJson0 ''title'')
                      then (case note of
                              None \<Rightarrow> None
                            | Some n \<Rightarrow> Some (assignTitle noteJson0 (JStr n)))
                      else Some noteJson0)
               in case titled of
                    None \<Rightarrow> (st1, Some TypeError)
                  | Some noteJson1 \<Rightarrow>
                      (case map_of noteJson1 ''title'' of
                         Some (JStr t) \<Rightarrow>
                           let title = normalizeTitle t;
                               noteJson = assignTitle noteJson1 (JStr title);
                               isArchived = map_of noteJson ''isArchived'';
                               isTrashed = map_of noteJson ''isTrashed''
                           in (case convertNoteToMarkdown noteJson of
                                 Inl e \<Rightarrow> (st1, Some e)
                               | Inr markdown \<Rightarrow>
                                   let st2 = emit
                                         [ConsoleLog (''  Note converted to markdown: '' @ title),
                                          ConsoleLog (''  '' @ title @ '': '' @ markdown)] st1;
                                       st3 = routeNote cfg st2 isTrashed isArchived title markdown
                                   in (deleteOriginal cfg st3 notePath title, None))
                       | _ \<Rightarrow> (st1, Some TypeError)))"

fun processNotes ::
  "config \<Rightarrow> (string \<Rightarrow> json option) \<Rightarrow> runState \<Rightarrow> string option list
     \<Rightarrow> runState \<times> error option" where
  "processNotes cfg readJson st [] = (st, None)"
| "processNotes cfg readJson st (note # notesToProcess) =
     (case processNote cfg readJson st note of
        (st', Some e) \<Rightarrow> (st', Some e)
      | (st', None) \<Rightarrow> processNotes cfg readJson st' notesToProcess)"

text \<open>\<open>note.endsWith(".json")\<close>\<close>

definition endsWithJson :: "string \<Rightarrow> bool" where
  "endsWithJson note = (5 \<le> length note \<and> drop (length note - 5) note = ''.json'')"

text \<open>
  The whole script: \<open>notes\<close> is what \<open>readdir\<close> returns.  The report at the end is
  reached only when no iteration threw.
\<close>

definition run ::
  "config \<Rightarrow> string list \<Rightarrow> (string \<Rightarrow> json option) \<Rightarrow> runState \<times> error option" where
  "run cfg notes readJson =
     (let jsonNotes = filter endsWithJson notes;
          notesToProcess =
            (if testOneNote cfg
             then [case jsonNotes of [] \<Rightarrow> None | first # _ \<Rightarrow> Some first]
             else map Some jsonNotes);
          st0 = \<lparr>notesArchivedCount = 0, notesTrashedCount = 0, notesUnsortedCount = 0,
                 effects = []\<rparr>
      in case processNotes cfg readJson st0 notesToProcess of
           (st, Some e) \<Rightarrow> (st, Some e)
         | (st, None) \<Rightarrow>
             (emit [ConsoleLog (''Notes total: '' @ decimal (length jsonNotes)),
                    ConsoleLog (''Notes archived: '' @ decimal (notesArchivedCount st)),
                    ConsoleLog (''Notes trashed: '' @ decimal (notesTrashedCount st))] st,
              None))"

section \<open>Notions used in the statements and proofs\<close>

subsection \<open>Where an entry comes from\<close>

text \<open>
  \<open>pathVia\<close> builds a path the way the recursion does, one property name after the
  other; \<open>atPath v ks w\<close> holds when following the names \<open>ks\<close> from \<open>v\<close> reaches \<open>w\<close>.
  \<open>origin\<close> ties an entry to the chain of property names it was read through.
\<close>

fun pathVia :: "string option \<Rightarrow> string list \<Rightarrow> string" where
  "pathVia pn [] = (case pn of None \<Rightarrow> [] | Some s \<Rightarrow> s)"
| "pathVia pn (k # ks) = pathVia (Some (currentPathOf pn k)) ks"

fun atPath :: "json \<Rightarrow> string list \<Rightarrow> json \<Rightarrow> bool" where
  "atPath v [] w = (v = w)"
| "atPath v (k # ks) w = list_ex (\<lambda>p. fst p = k \<and> atPath (snd p) ks w) (ownProperties v)"

definition origin :: "(string \<times> json) list \<Rightarrow> string option \<Rightarrow> entry \<Rightarrow> string list \<Rightarrow> bool" where
  "origin ps pn e ks =
     (case ks of [] \<Rightarrow> False
      | k # ks' \<Rightarrow> list_ex (\<lambda>p. fst p = k \<and> atPath (snd p) ks' (snd e)) ps
                  \<and> fst e = pathVia pn ks
                  \<and> list_all (\<lambda>x. x \<notin> set propertiesToIgnore) ks
                  \<and> \<not> isObject (snd e))"

subsection \<open>The comparator as a number, sorting without failure\<close>

text \<open>The comparator as a rank: priority keys by index, the others after them.\<close>

definition cmpInt :: "(string \<rightharpoonup> nat) \<Rightarrow> entry \<Rightarrow> entry \<Rightarrow> int" where
  "cmpInt om a b =
     (case (om (fst a), om (fst b)) of
        (Some i, Some j) \<Rightarrow> int i - int j
      | (Some i, None) \<Rightarrow> - 1
      | (None, Some j) \<Rightarrow> 1
      | (None, None) \<Rightarrow> localeCompare (fst a) (fst b))"

text \<open>
  \<open>a\<close> sorts before \<open>b\<close>: the comparator returns a negative number for \<open>(a, b)\<close>.
\<close>

definition before :: "string list \<Rightarrow> entry \<Rightarrow> entry \<Rightarrow> bool" where
  "before priorityKeys a b =
     (case compareEntries (orderMapOf priorityKeys) a b of Inr c \<Rightarrow> c < 0 | Inl e \<Rightarrow> False)"

text \<open>
  Insertion with a comparator that cannot fail, used to reason about \<open>sortBy\<close> where the
  comparator returns a number on every pair.
\<close>

fun insertPure :: "('a \<Rightarrow> 'a \<Rightarrow> int) \<Rightarrow> 'a \<Rightarrow> 'a list \<Rightarrow> 'a list" where
  "insertPure f x [] = [x]"
| "insertPure f x (y # ys) = (if f x y \<le> 0 then x # y # ys else y # insertPure f x ys)"

fun sortPure :: "('a \<Rightarrow> 'a \<Rightarrow> int) \<Rightarrow> 'a list \<Rightarrow> 'a list" where
  "sortPure f [] = []"
| "sortPure f (x # xs) = insertPure f x (sortPure f xs)"

text \<open>The index of a priority key grows along the priority list read without repetitions.\<close>

definition indexFrom :: "nat \<Rightarrow> string list \<Rightarrow> (string \<rightharpoonup> nat) \<Rightarrow> (string \<rightharpoonup> nat)" where
  "indexFrom n ks m =
     fold (\<lambda>(prop, index) orderMap. orderMap(prop \<mapsto> index)) (zip ks [n..<n + length ks]) m"

subsection \<open>Phone numbers and sample inputs\<close>

text \<open>Whether a string holds ten digits in a row, the pattern's only way to match.\<close>

fun hasTenDigits :: "string \<Rightarrow> bool" where
  "hasTenDigits [] = False"
| "hasTenDigits (c # cs) =
     ((10 \<le> length (c # cs) \<and> list_all isDigit (take 10 (c # cs))) \<or> hasTenDigits cs)"

text \<open>A stand-in for the validation routine on three inputs.\<close>

definition samplePhone :: "string \<Rightarrow> phoneResult" where
  "samplePhone s =
     (if s = ''817-569-8900'' then PhoneValid ''+18175698900''
      else if s = ''+298 123456'' then PhoneValid ''+298123456''
      else if s = ''+44 7911 123456'' then PhoneValid ''+447911123456''
      else PhoneInvalid)"

definition sampleContact :: contact where
  "sampleContact =
     \<lparr>provider = ''LINKEDIN'', public_identifier = Some ''jane-roe'',
      first_name = Some ''Jane'', last_name = Some ''Roe'',
      contact_info = Some \<lparr>ci_emails = Some [''Jane@Example.org''],
                           ci_phones = Some [''n/a'', ''817-569-8900'', ''+298 123456'']\<rparr>,
      work_experience = None, profile_picture_url = None\<rparr>"

definition sampleLookup :: "string \<Rightarrow> error + contact" where
  "sampleLookup urn = (if urn = ''jane-roe'' then Inr sampleContact else Inl LookupError)"


text \<open>The files written so far, with their contents.\<close>

definition writes :: "runState \<Rightarrow> (string \<times> string) list" where
  "writes st = concat (map (\<lambda>e. case e of WriteFile p c \<Rightarrow> [(p, c)] | _ \<Rightarrow> []) (effects st))"

definition sampleConfig :: config where
  "sampleConfig =
     \<lparr>dryRun = False, testOneNote = False, shouldDeleteOriginalNotes = False,
      noteInputDir = ''Keep'', noteOutputDir = ''out''\<rparr>"

text \<open>A trashed and archived note, an active note, and a file with a title only.\<close>

definition sampleFiles :: "string \<Rightarrow> json option" where
  "sampleFiles path =
     (if path = ''Keep/old.json''
      then Some (JObj [(''title'', JStr ''Old''), (''textContent'', JStr ''x''),
                       (''isTrashed'', JBool True), (''isArchived'', JBool True)])
      else if path = ''Keep/memo.json''
      then Some (JObj [(''title'', JStr ''Memo''), (''textContent'', JStr ''y''),
                       (''isTrashed'', JBool False), (''isArchived'', JBool False)])
      else if path = ''Keep/undefined''
      then Some (JObj [(''title'', JStr ''Stray'')])
      else None)"

definition emptyState :: runState where
  "emptyState =
     \<lparr>notesArchivedCount = 0, notesTrashedCount = 0, notesUnsortedCount = 0, effects = []\<rparr>"

subsection \<open>Plain property names and the segments of a path\<close>

text \<open>A property name with no dot in it; \<open>plainNames\<close> asks it of every name in a record.\<close>

definition plainName :: "string \<Rightarrow> bool" where
  "plainName k = (CHR ''.'' \<notin> set k)"

fun plainNames :: "json \<Rightarrow> bool" where
  "plainNames (JObj ps) = list_all (\<lambda>p. plainName (fst p) \<and> plainNames (snd p)) ps"
| "plainNames (JArr xs) = list_all plainNames xs"
| "plainNames _ = True"

text \<open>\<open>path.split(".")\<close>, the current piece being collected in reverse.\<close>

fun segmentsFrom :: "string \<Rightarrow> string \<Rightarrow> string list" where
  "segmentsFrom piece [] = [rev piece]"
| "segmentsFrom piece (c # cs) =
     (if c = CHR ''.'' then rev piece # segmentsFrom [] cs else segmentsFrom (c # piece) cs)"

definition segments :: "string \<Rightarrow> string list" where
  "segments path = segmentsFrom [] path"

section \<open>Properties of recursivelyGetProperties\<close>

lemma jsonSize_pos: "0 < jsonSize v"
  by (cases v) simp_all

lemma propsSize_ownProperties: "isObject v \<Longrightarrow> propsSize (ownProperties v) < jsonSize v"
proof (cases v)
  case (JArr xs)
  have "map (\<lambda>p. jsonSize (snd p)) (zip (map decimal [0..<length xs]) xs) = map jsonSize xs"
    by (rule nth_equalityI) simp_all
  with JArr show ?thesis by (simp add: propsSize_def)
qed (simp_all add: propsSize_def)

lemma propsSize_Cons: "propsSize (p # ps) = jsonSize (snd p) + propsSize ps"
  by (simp add: propsSize_def)

lemma propsSize_rest_less: "propsSize rest < propsSize ((k, v) # rest)"
  by (simp add: propsSize_Cons jsonSize_pos)

lemma propsSize_own_less: "isObject v \<Longrightarrow> propsSize (ownProperties v) < propsSize ((k, v) # rest)"
  using propsSize_ownProperties [of v] by (simp add: propsSize_Cons)

lemma loop_acc: "getPropertiesLoop ps acc pn = acc @ getPropertiesLoop ps [] pn"
proof (induction "propsSize ps" arbitrary: ps acc pn rule: less_induct)
  case less
  show ?case
  proof (cases ps)
    case Nil
    then show ?thesis by simp
  next
    case (Cons p rest)
    obtain k v where p: "p = (k, v)" by (cases p)
    have rest: "getPropertiesLoop rest a q = a @ getPropertiesLoop rest [] q" for a q
      by (rule less) (simp add: Cons p propsSize_rest_less)
    show ?thesis
    proof (cases "k \<in> set propertiesToIgnore")
      case True
      then show ?thesis using Cons p rest [of acc pn] by simp
    next
      case notIgnored: False
      let ?cp = "currentPathOf pn k"
      show ?thesis
      proof (cases "isObject v")
        case True
        have own: "getPropertiesLoop (ownProperties v) a q
                     = a @ getPropertiesLoop (ownProperties v) [] q" for a q
          by (rule less) (simp add: Cons p propsSize_own_less [OF True])
        let ?inner = "getPropertiesLoop (ownProperties v) [] (Some ?cp)"
        have "getPropertiesLoop ps acc pn
                = getPropertiesLoop rest (getPropertiesLoop (ownProperties v) acc (Some ?cp)) pn"
          using True notIgnored Cons p by (simp add: Let_def)
        also have "\<dots> = (acc @ ?inner) @ getPropertiesLoop rest [] pn"
          by (subst rest, subst own) simp
        also have "\<dots> = acc @ getPropertiesLoop rest ?inner pn"
          by (subst (2) rest) simp
        also have "\<dots> = acc @ getPropertiesLoop ps [] pn"
          using True notIgnored Cons p by (simp add: Let_def)
        finally show ?thesis .
      next
        case False
        have "getPropertiesLoop ps acc pn = getPropertiesLoop rest (acc @ [(?cp, v)]) pn"
          using False notIgnored Cons p by (simp add: Let_def)
        also have "\<dots> = (acc @ [(?cp, v)]) @ getPropertiesLoop rest [] pn"
          by (rule rest)
        also have "\<dots> = acc @ getPropertiesLoop rest [(?cp, v)] pn"
          by (subst (2) rest) simp
        also have "\<dots> = acc @ getPropertiesLoop ps [] pn"
          using False notIgnored Cons p by (simp add: Let_def)
        finally show ?thesis .
      qed
    qed
  qed
qed


lemma loop_object:
  "k \<notin> set propertiesToIgnore \<Longrightarrow> isObject v \<Longrightarrow>
   getPropertiesLoop ((k, v) # rest) [] pn
     = getPropertiesLoop (ownProperties v) [] (Some (currentPathOf pn k))
       @ getPropertiesLoop rest [] pn"
  using loop_acc [of rest "getPropertiesLoop (ownProperties v) [] (Some (currentPathOf pn k))" pn]
  by (simp add: Let_def)

lemma loop_leaf:
  "k \<notin> set propertiesToIgnore \<Longrightarrow> \<not> isObject v \<Longrightarrow>
   getPropertiesLoop ((k, v) # rest) [] pn
     = (currentPathOf pn k, v) # getPropertiesLoop rest [] pn"
  using loop_acc [of rest "[(currentPathOf pn k, v)]" pn]
  by (simp add: Let_def)

lemma origin_Cons_rest: "origin rest pn e ks \<Longrightarrow> origin (p # rest) pn e ks"
  by (auto simp: origin_def split: list.splits)

lemma origin_leaf:
  "k \<notin> set propertiesToIgnore \<Longrightarrow> \<not> isObject v \<Longrightarrow>
   origin ((k, v) # rest) pn (currentPathOf pn k, v) [k]"
  by (simp add: origin_def)

lemma origin_descend:
  assumes "k \<notin> set propertiesToIgnore"
    and "origin (ownProperties v) (Some (currentPathOf pn k)) e ks"
  shows "origin ((k, v) # rest) pn e (k # ks)"
  using assms by (cases ks) (auto simp: origin_def)

lemma loop_origin:
  "e \<in> set (getPropertiesLoop ps [] pn) \<Longrightarrow> \<exists>ks. origin ps pn e ks"
proof (induction "propsSize ps" arbitrary: ps pn rule: less_induct)
  case less
  show ?case
  proof (cases ps)
    case Nil
    with less.prems show ?thesis by simp
  next
    case (Cons p rest)
    obtain k v where p: "p = (k, v)" by (cases p)
    have rest: "e \<in> set (getPropertiesLoop rest [] pn) \<Longrightarrow> \<exists>ks. origin ps pn e ks"
    proof -
      assume "e \<in> set (getPropertiesLoop rest [] pn)"
      then obtain ks where "origin rest pn e ks"
        using less.hyps [of rest pn] by (auto simp: Cons p propsSize_rest_less)
      then show ?thesis unfolding Cons by (blast intro: origin_Cons_rest)
    qed
    show ?thesis
    proof (cases "k \<in> set propertiesToIgnore")
      case True
      with less.prems rest show ?thesis by (simp add: Cons p)
    next
      case notIgnored: False
      show ?thesis
      proof (cases "isObject v")
        case True
        from less.prems consider
          "e \<in> set (getPropertiesLoop (ownProperties v) [] (Some (currentPathOf pn k)))"
          | "e \<in> set (getPropertiesLoop rest [] pn)"
          unfolding Cons p loop_object [OF notIgnored True] by auto
        then show ?thesis
        proof cases
          case 1
          then obtain ks where "origin (ownProperties v) (Some (currentPathOf pn k)) e ks"
            using less.hyps [of "ownProperties v"] propsSize_own_less [OF True, of k rest]
            by (auto simp: Cons p)
          then show ?thesis
            unfolding Cons p by (blast intro: origin_descend [OF notIgnored])
        next
          case 2
          then show ?thesis by (rule rest)
        qed
      next
        case False
        from less.prems consider "e = (currentPathOf pn k, v)"
          | "e \<in> set (getPropertiesLoop rest [] pn)"
          unfolding Cons p loop_leaf [OF notIgnored False] by auto
        then show ?thesis
        proof cases
          case 1
          then show ?thesis
            unfolding Cons p using origin_leaf [OF notIgnored False] by blast
        next
          case 2
          then show ?thesis by (rule rest)
        qed
      qed
    qed
  qed
qed


lemma digit_nth: "d < 10 \<Longrightarrow> ''0123456789'' ! d \<in> set ''0123456789''"
  by (rule nth_mem) simp

lemma decimal_digits: "set (decimal n) \<subseteq> set ''0123456789''"
proof (induction n rule: decimal.induct)
  case (1 n)
  show ?case
  proof (cases "n < 10")
    case True
    then show ?thesis using digit_nth [of n] by (subst decimal.simps) simp
  next
    case False
    have "n mod 10 < 10" by simp
    then have "''0123456789'' ! (n mod 10) \<in> set ''0123456789''" by (rule digit_nth)
    with False 1 show ?thesis by (subst decimal.simps) simp
  qed
qed


lemma decimal_small: "n < 10 \<Longrightarrow> decimal n = [''0123456789'' ! n]"
  by (subst decimal.simps) simp











section \<open>Properties of the comparator\<close>

lemma keyLess_irrefl: "\<not> keyLess x x"
  by (simp add: keyLess_def)

lemma keyLess_trans: "keyLess x y \<Longrightarrow> keyLess y z \<Longrightarrow> keyLess x z"
  by (auto simp: keyLess_def)

lemma keyLess_asym: "keyLess x y \<Longrightarrow> \<not> keyLess y x"
  by (auto simp: keyLess_def)

lemma keyLess_total: "\<not> keyLess x y \<Longrightarrow> \<not> keyLess y x \<Longrightarrow> x = y"
  by (cases x, cases y) (auto simp: keyLess_def)

lemma compareKeys_range: "compareKeys xs ys \<in> {- 1, 0, 1}"
  by (induction xs ys rule: compareKeys.induct) auto

lemma compareKeys_flip: "compareKeys ys xs = - compareKeys xs ys"
  by (induction xs ys rule: compareKeys.induct) (auto dest: keyLess_asym)

lemma compareKeys_zero_iff: "compareKeys xs ys = 0 \<longleftrightarrow> xs = ys"
  by (induction xs ys rule: compareKeys.induct) (auto dest: keyLess_total simp: keyLess_irrefl)

lemma compareKeys_le_trans:
  "compareKeys xs ys \<le> 0 \<Longrightarrow> compareKeys ys zs \<le> 0 \<Longrightarrow> compareKeys xs zs \<le> 0"
proof (induction xs ys arbitrary: zs rule: compareKeys.induct)
  case 1
  then show ?case by simp
next
  case (2 y ys)
  then show ?case by (cases zs) simp_all
next
  case (3 x xs)
  then show ?case by simp
next
  case (4 x xs y ys)
  show ?case
  proof (cases zs)
    case Nil
    with 4 show ?thesis by (simp split: if_splits)
  next
    case (Cons z zs')
    from 4(2) have xy: "keyLess x y \<or> (\<not> keyLess x y \<and> \<not> keyLess y x \<and> compareKeys xs ys \<le> 0)"
      by (simp split: if_splits)
    from 4(3) Cons have yz: "keyLess y z \<or> (\<not> keyLess y z \<and> \<not> keyLess z y \<and> compareKeys ys zs' \<le> 0)"
      by (simp split: if_splits)
    show ?thesis
    proof (cases "keyLess x y")
      case True
      from yz have "keyLess x z"
      proof
        assume "keyLess y z" with True show ?thesis by (rule keyLess_trans)
      next
        assume "\<not> keyLess y z \<and> \<not> keyLess z y \<and> compareKeys ys zs' \<le> 0"
        then have "y = z" by (blast intro: keyLess_total)
        with True show ?thesis by simp
      qed
      then show ?thesis using Cons by simp
    next
      case False
      with xy have eq: "x = y" and rec: "compareKeys xs ys \<le> 0"
        by (blast intro: keyLess_total)+
      from yz show ?thesis
      proof
        assume "keyLess y z"
        then show ?thesis using Cons eq by simp
      next
        assume a: "\<not> keyLess y z \<and> \<not> keyLess z y \<and> compareKeys ys zs' \<le> 0"
        then have "y = z" by (blast intro: keyLess_total)
        moreover have "compareKeys xs zs' \<le> 0"
          using 4(1) [of zs'] False eq rec a by (simp add: keyLess_irrefl)
        ultimately show ?thesis using Cons eq by (simp add: keyLess_irrefl)
      qed
    qed
  qed
qed

lemma localeCompare_flip: "localeCompare b a = - localeCompare a b"
  unfolding localeCompare_def by (rule compareKeys_flip)

lemma localeCompare_zero_iff: "localeCompare a b = 0 \<longleftrightarrow> collationKeys a = collationKeys b"
  unfolding localeCompare_def by (rule compareKeys_zero_iff)

lemma localeCompare_le_trans:
  "localeCompare a b \<le> 0 \<Longrightarrow> localeCompare b c \<le> 0 \<Longrightarrow> localeCompare a c \<le> 0"
  unfolding localeCompare_def by (rule compareKeys_le_trans)

lemma compareEntries_cmpInt:
  "fst a \<noteq> [] \<Longrightarrow> fst b \<noteq> [] \<Longrightarrow> compareEntries om a b = Inr (cmpInt om a b)"
  by (auto simp: compareEntries_def cmpInt_def Let_def split: option.splits)

lemma compareEntries_empty:
  "fst a = [] \<or> fst b = [] \<Longrightarrow> compareEntries om a b = Inl InvalidSortKey"
  by (auto simp: compareEntries_def)

lemma cmpInt_flip: "cmpInt om b a = - cmpInt om a b"
  using localeCompare_flip [of "fst a" "fst b"]
  by (auto simp: cmpInt_def split: option.splits)

lemma cmpInt_le_trans:
  "cmpInt om a b \<le> 0 \<Longrightarrow> cmpInt om b c \<le> 0 \<Longrightarrow> cmpInt om a c \<le> 0"
  by (auto simp: cmpInt_def split: option.splits dest: localeCompare_le_trans)

lemma cmpInt_zero_iff:
  "cmpInt om a b = 0 \<longleftrightarrow>
     (case (om (fst a), om (fst b)) of
        (Some i, Some j) \<Rightarrow> i = j
      | (None, None) \<Rightarrow> collationKeys (fst a) = collationKeys (fst b)
      | _ \<Rightarrow> False)"
  by (auto simp: cmpInt_def localeCompare_zero_iff split: option.splits)

lemma cmpInt_less_trans:
  assumes "cmpInt om a b < 0" "cmpInt om b c < 0"
  shows "cmpInt om a c < 0"
proof -
  have le: "cmpInt om a c \<le> 0" using assms cmpInt_le_trans [of om a b c] by simp
  have "cmpInt om a c \<noteq> 0"
  proof
    assume z: "cmpInt om a c = 0"
    then have "cmpInt om c a = 0" using cmpInt_flip [of om c a] by simp
    then have "cmpInt om c a \<le> 0" by simp
    with assms(1) have "cmpInt om c b \<le> 0" using cmpInt_le_trans [of om c a b] by simp
    then have "cmpInt om b c \<ge> 0" using cmpInt_flip [of om c b] by simp
    with assms(2) show False by simp
  qed
  with le show ?thesis by simp
qed

lemma fold_update_map_of:
  "fold (\<lambda>(prop, index) orderMap. orderMap(prop \<mapsto> index)) zs m = m ++ map_of (rev zs)"
proof (induction zs arbitrary: m)
  case Nil
  show ?case by simp
next
  case (Cons z zs)
  obtain k v where z: "z = (k, v)" by (cases z)
  have "fold (\<lambda>(prop, index) orderMap. orderMap(prop \<mapsto> index)) (z # zs) m
          = fold (\<lambda>(prop, index) orderMap. orderMap(prop \<mapsto> index)) zs (m(k \<mapsto> v))"
    by (simp add: z del: fun_upd_apply)
  also have "\<dots> = m(k \<mapsto> v) ++ map_of (rev zs)" by (rule Cons)
  also have "\<dots> = m ++ ([k \<mapsto> v] ++ map_of (rev zs))"
    by (rule ext) (simp add: map_add_def split: option.splits)
  also have "\<dots> = m ++ map_of (rev (z # zs))"
    by (simp add: z map_of_append del: fun_upd_apply)
  finally show ?case .
qed

lemma orderMapOf_map_of: "orderMapOf pk = map_of (rev (zip pk [0..<length pk]))"
  by (simp add: orderMapOf_def fold_update_map_of)

lemma orderMapOf_SomeD: "orderMapOf pk k = Some i \<Longrightarrow> i < length pk \<and> pk ! i = k"
proof -
  assume "orderMapOf pk k = Some i"
  then have "(k, i) \<in> set (zip pk [0..<length pk])"
    unfolding orderMapOf_map_of by (auto dest: map_of_SomeD)
  then show ?thesis by (auto simp: in_set_zip)
qed

lemma orderMapOf_dom: "dom (orderMapOf pk) = set pk"
proof -
  have "set (map fst (zip pk [0..<length pk])) = set pk"
    by (simp only: map_fst_zip length_upt diff_zero)
  then have e: "fst ` set (zip pk [0..<length pk]) = set pk"
    by (simp only: set_map)
  show ?thesis
    unfolding orderMapOf_map_of dom_map_of_conv_image_fst set_rev by (rule e)
qed

lemma orderMapOf_None_iff: "orderMapOf pk k = None \<longleftrightarrow> k \<notin> set pk"
proof -
  have "orderMapOf pk k = None \<longleftrightarrow> k \<notin> dom (orderMapOf pk)" by (simp add: domIff)
  then show ?thesis by (simp only: orderMapOf_dom)
qed

lemma orderMapOf_inj:
  "orderMapOf pk a = Some i \<Longrightarrow> orderMapOf pk b = Some i \<Longrightarrow> a = b"
  by (auto dest!: orderMapOf_SomeD)

lemma before_cmpInt:
  "fst a \<noteq> [] \<Longrightarrow> fst b \<noteq> [] \<Longrightarrow> before pk a b \<longleftrightarrow> cmpInt (orderMapOf pk) a b < 0"
  by (simp add: before_def compareEntries_cmpInt)

lemma tie_iff:
  "cmpInt (orderMapOf pk) a b = 0 \<longleftrightarrow>
     (fst a = fst b \<or>
      (fst a \<notin> set pk \<and> fst b \<notin> set pk \<and> collationKeys (fst a) = collationKeys (fst b)))"
proof (cases "orderMapOf pk (fst a)")
  case None
  note a = this
  then have ani: "fst a \<notin> set pk" using orderMapOf_None_iff [of pk "fst a"] by simp
  show ?thesis
  proof (cases "orderMapOf pk (fst b)")
    case None
    then have bni: "fst b \<notin> set pk" using orderMapOf_None_iff [of pk "fst b"] by simp
    have "cmpInt (orderMapOf pk) a b = 0 \<longleftrightarrow> collationKeys (fst a) = collationKeys (fst b)"
      by (simp add: cmpInt_zero_iff a None)
    with ani bni show ?thesis by auto
  next
    case (Some j)
    then have bin: "fst b \<in> set pk" using orderMapOf_None_iff [of pk "fst b"] by auto
    have "cmpInt (orderMapOf pk) a b \<noteq> 0" by (simp add: cmpInt_zero_iff a Some)
    with ani bin show ?thesis by auto
  qed
next
  case (Some i)
  note a = this
  then have ain: "fst a \<in> set pk" using orderMapOf_None_iff [of pk "fst a"] by auto
  show ?thesis
  proof (cases "orderMapOf pk (fst b)")
    case None
    then have bni: "fst b \<notin> set pk" using orderMapOf_None_iff [of pk "fst b"] by simp
    have "cmpInt (orderMapOf pk) a b \<noteq> 0" by (simp add: cmpInt_zero_iff a None)
    with ain bni show ?thesis by auto
  next
    case (Some j)
    then have bin: "fst b \<in> set pk" using orderMapOf_None_iff [of pk "fst b"] by auto
    have "cmpInt (orderMapOf pk) a b = 0 \<longleftrightarrow> i = j"
      by (simp add: cmpInt_zero_iff a Some)
    moreover have "i = j \<longleftrightarrow> fst a = fst b"
      using a Some orderMapOf_inj [of pk "fst a" i "fst b"] by auto
    ultimately show ?thesis using ain bin by auto
  qed
qed

text \<open>
  C2 (as the code has it).  On entries with non-empty paths the comparator never throws
  and is a strict weak order: two entries are never each before the other, "before" is
  transitive, and neither is before the other exactly when the paths are equal or both
  are outside the priority list and have the same collation keys.
\<close>

theorem comparator_is_strict_weak_order:
  assumes "fst a \<noteq> []" and "fst b \<noteq> []" and "fst c \<noteq> []"
  shows "(\<exists>n. compareEntries (orderMapOf pk) a b = Inr n) \<and>
         \<not> (before pk a b \<and> before pk b a) \<and>
         (before pk a b \<and> before pk b c \<longrightarrow> before pk a c) \<and>
         ((\<not> before pk a b \<and> \<not> before pk b a) \<longleftrightarrow>
            (fst a = fst b \<or>
             (fst a \<notin> set pk \<and> fst b \<notin> set pk \<and> collationKeys (fst a) = collationKeys (fst b))))"
proof -
  let ?om = "orderMapOf pk"
  have ab: "before pk a b \<longleftrightarrow> cmpInt ?om a b < 0"
    and ba: "before pk b a \<longleftrightarrow> cmpInt ?om a b > 0"
    and bc: "before pk b c \<longleftrightarrow> cmpInt ?om b c < 0"
    and ac: "before pk a c \<longleftrightarrow> cmpInt ?om a c < 0"
    using assms cmpInt_flip [of ?om b a] by (simp_all add: before_cmpInt)
  have 1: "\<exists>n. compareEntries ?om a b = Inr n"
    using assms by (simp add: compareEntries_cmpInt)
  have 2: "\<not> (before pk a b \<and> before pk b a)" using ab ba by simp
  have 3: "before pk a b \<and> before pk b c \<longrightarrow> before pk a c"
    using ab bc ac cmpInt_less_trans [of ?om a b c] by blast
  have "(\<not> before pk a b \<and> \<not> before pk b a) \<longleftrightarrow> cmpInt ?om a b = 0"
    using ab ba by auto
  then have 4: "(\<not> before pk a b \<and> \<not> before pk b a) \<longleftrightarrow>
            (fst a = fst b \<or>
             (fst a \<notin> set pk \<and> fst b \<notin> set pk \<and> collationKeys (fst a) = collationKeys (fst b)))"
    by (simp only: tie_iff)
  from 1 2 3 4 show ?thesis by blast
qed

text \<open>
  C2 (as stated) fails: the paths \<open>Alpha\<close> and \<open>alpha\<close> are distinct, and neither entry
  is before the other, since \<open>sensitivity: "base"\<close> ignores case.
\<close>

theorem comparator_tie_counterexample:
  "''Alpha'' \<noteq> ''alpha'' \<and>
   \<not> before orderedProperties (''Alpha'', JNull) (''alpha'', JNull) \<and>
   \<not> before orderedProperties (''alpha'', JNull) (''Alpha'', JNull)"
  by (simp add: before_def compareEntries_def orderMapOf_def orderedProperties_def
        localeCompare_def collationKeys_def isDigit_def charKey_def keyLess_def)

theorem comparator_is_strict_weak_order_witness:
  "before orderedProperties (''title'', JNull) (''alpha2'', JNull) \<and>
   before orderedProperties (''alpha2'', JNull) (''alpha10'', JNull) \<and>
   before orderedProperties (''title'', JNull) (''alpha10'', JNull) \<and>
   \<not> before orderedProperties (''alpha2'', JNull) (''title'', JNull)"
proof -
  have t: "before orderedProperties (''title'', JNull) (''alpha2'', JNull)"
    by (simp add: before_def compareEntries_def orderMapOf_def orderedProperties_def)
  have u: "before orderedProperties (''alpha2'', JNull) (''alpha10'', JNull)"
    by (simp add: before_def compareEntries_def orderMapOf_def orderedProperties_def
        localeCompare_def collationKeys_def isDigit_def charKey_def keyLess_def digitValue_def)
  from comparator_is_strict_weak_order
         [of "(''title'', JNull)" "(''alpha2'', JNull)" "(''alpha10'', JNull)" orderedProperties]
       t u
  show ?thesis by simp
qed

section \<open>Properties of the sort and of the result object\<close>

lemma mset_insertPure: "mset (insertPure f x ys) = add_mset x (mset ys)"
  by (induction ys) simp_all

lemma mset_sortPure: "mset (sortPure f xs) = mset xs"
  by (induction xs) (simp_all add: mset_insertPure)

lemma set_insertPure: "set (insertPure f x ys) = insert x (set ys)"
  using mset_insertPure [of f x ys, THEN arg_cong, of set_mset] by simp

lemma set_sortPure: "set (sortPure f xs) = set xs"
  using mset_sortPure [of f xs, THEN arg_cong, of set_mset] by simp

lemma insertBy_pure:
  "\<forall>y \<in> set ys. cmp x y = Inr (f x y) \<Longrightarrow> insertBy cmp x ys = Inr (insertPure f x ys)"
  by (induction ys) simp_all

lemma sortBy_pure:
  "\<forall>x \<in> set xs. \<forall>y \<in> set xs. cmp x y = Inr (f x y) \<Longrightarrow> sortBy cmp xs = Inr (sortPure f xs)"
proof (induction xs)
  case Nil
  show ?case by simp
next
  case (Cons x xs)
  then have "sortBy cmp xs = Inr (sortPure f xs)" by simp
  moreover have "insertBy cmp x (sortPure f xs) = Inr (insertPure f x (sortPure f xs))"
    using Cons.prems by (intro insertBy_pure) (simp add: set_sortPure)
  ultimately show ?case by simp
qed

lemma sorted_insertPure:
  assumes tot: "\<And>a b. \<not> f a b \<le> 0 \<Longrightarrow> f b a \<le> 0"
    and trans: "\<And>a b c. f a b \<le> 0 \<Longrightarrow> f b c \<le> 0 \<Longrightarrow> f a c \<le> 0"
  shows "sorted_wrt (\<lambda>a b. f a b \<le> 0) ys \<Longrightarrow> sorted_wrt (\<lambda>a b. f a b \<le> 0) (insertPure f x ys)"
proof (induction ys)
  case Nil
  show ?case by simp
next
  case (Cons y ys)
  show ?case
  proof (cases "f x y \<le> 0")
    case True
    with Cons.prems show ?thesis by (auto intro: trans)
  next
    case False
    then have "f y x \<le> 0" by (rule tot)
    with False Cons show ?thesis by (auto simp: set_insertPure)
  qed
qed

lemma sorted_sortPure:
  assumes "\<And>a b. \<not> f a b \<le> 0 \<Longrightarrow> f b a \<le> 0"
    and "\<And>a b c. f a b \<le> 0 \<Longrightarrow> f b c \<le> 0 \<Longrightarrow> f a c \<le> 0"
  shows "sorted_wrt (\<lambda>a b. f a b \<le> 0) (sortPure f xs)"
  by (induction xs) (simp_all add: sorted_insertPure [OF assms])

lemma sorted_wrt_partition:
  assumes "\<And>a b. \<not> P a \<Longrightarrow> P b \<Longrightarrow> \<not> R a b"
  shows "sorted_wrt R xs \<Longrightarrow> xs = filter P xs @ filter (\<lambda>x. \<not> P x) xs"
proof (induction xs)
  case Nil
  show ?case by simp
next
  case (Cons x xs)
  then have ih: "xs = filter P xs @ filter (\<lambda>x. \<not> P x) xs" and rx: "\<forall>y \<in> set xs. R x y"
    by simp_all
  show ?case
  proof (cases "P x")
    case True
    with ih show ?thesis by simp
  next
    case False
    with rx assms have "\<forall>y \<in> set xs. \<not> P y" by blast
    then have "filter P xs = []" "filter (\<lambda>x. \<not> P x) xs = xs" by (simp_all add: filter_empty_conv)
    with False show ?thesis by simp
  qed
qed

lemma sorted_wrt_and_distinct:
  "sorted_wrt R xs \<Longrightarrow> distinct (map g xs) \<Longrightarrow> sorted_wrt (\<lambda>a b. R a b \<and> g a \<noteq> g b) xs"
  by (induction xs) auto

lemma objectSet_fresh:
  "key \<notin> set (map fst (props obj)) \<Longrightarrow> key \<noteq> ''__proto__'' \<Longrightarrow>
   objectSet obj key v = obj\<lparr>props := props obj @ [(key, v)]\<rparr>"
  by (simp add: objectSet_def)

lemma buildResult_fresh:
  assumes "\<forall>e \<in> set items. fst e \<noteq> [] \<and> fst e \<noteq> ''__proto__''"
    and "distinct (map fst items)"
    and "set (map fst items) \<inter> set (map fst (props obj)) = {}"
  shows "buildResult items obj = Inr (obj\<lparr>props := props obj @ items\<rparr>)"
  using assms
proof (induction items arbitrary: obj)
  case Nil
  show ?case by simp
next
  case (Cons item items)
  obtain k v where item: "item = (k, v)" by (cases item)
  from Cons.prems have k: "k \<noteq> []" "k \<noteq> ''__proto__''" "k \<notin> set (map fst (props obj))"
    "k \<notin> set (map fst items)"
    by (auto simp: item)
  let ?obj' = "obj\<lparr>props := props obj @ [(k, v)]\<rparr>"
  have step: "objectSet obj k v = ?obj'" using k by (simp add: objectSet_fresh)
  have "buildResult items ?obj' = Inr (?obj'\<lparr>props := props ?obj' @ items\<rparr>)"
  proof (rule Cons.IH)
    show "\<forall>e \<in> set items. fst e \<noteq> [] \<and> fst e \<noteq> ''__proto__''" using Cons.prems by simp
    show "distinct (map fst items)" using Cons.prems by simp
    show "set (map fst items) \<inter> set (map fst (props ?obj')) = {}"
      using Cons.prems k by (auto simp: item)
  qed
  then show ?case using k step by (simp add: item)
qed

lemma objectEntries_plain:
  "\<forall>p \<in> set (props obj). \<not> isArrayIndex (fst p) \<Longrightarrow> objectEntries obj = props obj"
  by (simp add: objectEntries_def filter_empty_conv[THEN iffD2] filter_id_conv[THEN iffD2])

lemma indexFrom_Nil: "indexFrom n [] m = m"
  by (simp add: indexFrom_def)

lemma indexFrom_Cons: "indexFrom n (x # xs) m = indexFrom (Suc n) xs (m(x \<mapsto> n))"
proof -
  have len: "n + length (x # xs) = Suc n + length xs" by simp
  have "n < Suc n + length xs" by simp
  then have "[n..<Suc n + length xs] = n # [Suc n..<Suc n + length xs]"
    by (rule upt_conv_Cons)
  then have upt: "[n..<n + length (x # xs)] = n # [Suc n..<Suc n + length xs]"
    by (simp only: len)
  show ?thesis unfolding indexFrom_def upt by (simp del: fun_upd_apply)
qed

lemma indexFrom_outside: "k \<notin> set ks \<Longrightarrow> indexFrom n ks m k = m k"
  by (induction ks arbitrary: n m) (simp_all add: indexFrom_Nil indexFrom_Cons)

lemma indexFrom_inside: "k \<in> set ks \<Longrightarrow> \<exists>i. indexFrom n ks m k = Some i \<and> n \<le> i"
proof (induction ks arbitrary: n m)
  case Nil
  then show ?case by simp
next
  case (Cons x xs)
  show ?case
  proof (cases "k \<in> set xs")
    case True
    from Cons.IH [OF True, of "Suc n" "m(x \<mapsto> n)"]
    obtain i where "indexFrom (Suc n) xs (m(x \<mapsto> n)) k = Some i" "Suc n \<le> i" by blast
    then show ?thesis unfolding indexFrom_Cons by auto
  next
    case False
    with Cons.prems have "k = x" by simp
    with False show ?thesis unfolding indexFrom_Cons by (simp add: indexFrom_outside)
  qed
qed

lemma indexFrom_grows:
  "sorted_wrt (\<lambda>a b. the (indexFrom n pk m a) < the (indexFrom n pk m b)) (remdups pk)"
proof (induction pk arbitrary: n m)
  case Nil
  show ?case by simp
next
  case (Cons x xs)
  note ih = Cons [of "Suc n" "m(x \<mapsto> n)"]
  show ?case
  proof (cases "x \<in> set xs")
    case True
    then have "remdups (x # xs) = remdups xs" by simp
    then show ?thesis unfolding indexFrom_Cons using ih by (simp only:)
  next
    case False
    then have rd: "remdups (x # xs) = x # remdups xs" by simp
    have x: "indexFrom (Suc n) xs (m(x \<mapsto> n)) x = Some n"
      using indexFrom_outside [OF False] by simp
    have "\<forall>b \<in> set (remdups xs). the (indexFrom (Suc n) xs (m(x \<mapsto> n)) x)
             < the (indexFrom (Suc n) xs (m(x \<mapsto> n)) b)"
    proof
      fix b assume "b \<in> set (remdups xs)"
      then have "b \<in> set xs" by simp
      from indexFrom_inside [OF this, of "Suc n" "m(x \<mapsto> n)"]
      obtain i where "indexFrom (Suc n) xs (m(x \<mapsto> n)) b = Some i" "Suc n \<le> i" by blast
      with x show "the (indexFrom (Suc n) xs (m(x \<mapsto> n)) x)
             < the (indexFrom (Suc n) xs (m(x \<mapsto> n)) b)"
        by simp
    qed
    with ih show ?thesis unfolding indexFrom_Cons rd by (simp only: sorted_wrt.simps simp_thms)
  qed
qed

lemma orderMapOf_indexFrom: "orderMapOf pk = indexFrom 0 pk Map.empty"
  by (simp add: orderMapOf_def indexFrom_def)

lemma orderMapOf_grows:
  "sorted_wrt (\<lambda>a b. the (orderMapOf pk a) < the (orderMapOf pk b)) (remdups pk)"
  unfolding orderMapOf_indexFrom by (rule indexFrom_grows)

lemma orderMapOf_inj_on: "inj_on (\<lambda>k. the (orderMapOf pk k)) (set pk)"
proof (rule inj_onI)
  fix a b assume a: "a \<in> set pk" and b: "b \<in> set pk"
    and eq: "the (orderMapOf pk a) = the (orderMapOf pk b)"
  from a obtain i where i: "orderMapOf pk a = Some i"
    using orderMapOf_None_iff [of pk a] by auto
  from b obtain j where j: "orderMapOf pk b = Some j"
    using orderMapOf_None_iff [of pk b] by auto
  from eq i j have "i = j" by simp
  with i j show "a = b" by (auto dest: orderMapOf_inj)
qed

lemma cmpInt_total: "\<not> cmpInt om a b \<le> 0 \<Longrightarrow> cmpInt om b a \<le> 0"
  using cmpInt_flip [of om b a] by simp

lemma cmpInt_pri_after: "om (fst a) = None \<Longrightarrow> om (fst b) = Some j \<Longrightarrow> \<not> cmpInt om a b \<le> 0"
  by (simp add: cmpInt_def)

lemma cmpInt_both_pri:
  "om (fst a) = Some i \<Longrightarrow> om (fst b) = Some j \<Longrightarrow> cmpInt om a b \<le> 0 \<longleftrightarrow> i \<le> j"
  by (simp add: cmpInt_def)

lemma cmpInt_both_rest:
  "om (fst a) = None \<Longrightarrow> om (fst b) = None \<Longrightarrow> cmpInt om a b = localeCompare (fst a) (fst b)"
  by (simp add: cmpInt_def)

text \<open>
  What the sorted array looks like: the entries of the input, those with a priority key
  first in the order of the priority list, then the others in collation order.
\<close>

lemma sortPure_shape:
  fixes pk :: "string list" and md :: "entry list"
  defines "S \<equiv> sortPure (cmpInt (orderMapOf pk)) md"
  assumes dist: "distinct (map fst md)"
  shows "mset S = mset md"
    and "S = filter (\<lambda>e. fst e \<in> set pk) S @ filter (\<lambda>e. fst e \<notin> set pk) S"
    and "map fst (filter (\<lambda>e. fst e \<in> set pk) S)
           = filter (\<lambda>k. k \<in> fst ` set md) (remdups pk)"
    and "sorted_wrt (\<lambda>a b. localeCompare (fst a) (fst b) \<le> 0) (filter (\<lambda>e. fst e \<notin> set pk) S)"
proof -
  let ?om = "orderMapOf pk"
  let ?f = "cmpInt ?om"
  let ?idx = "\<lambda>k. the (?om k)"
  let ?A = "filter (\<lambda>e. fst e \<in> set pk) S"
  let ?B = "filter (\<lambda>k. k \<in> fst ` set md) (remdups pk)"
  show ms: "mset S = mset md" unfolding S_def by (rule mset_sortPure)
  then have setS: "set S = set md" by (rule mset_eq_setD)
  from ms have "mset (map fst S) = mset (map fst md)" by simp
  with dist have distS: "distinct (map fst S)" using mset_eq_imp_distinct_iff by blast
  have sorted: "sorted_wrt (\<lambda>a b. ?f a b \<le> 0) S"
    unfolding S_def by (rule sorted_sortPure) (erule cmpInt_total, erule cmpInt_le_trans)
  have pri: "fst e \<in> set pk \<Longrightarrow> \<exists>i. ?om (fst e) = Some i" for e :: entry
    using orderMapOf_None_iff [of pk "fst e"] by auto
  have rest: "fst e \<notin> set pk \<Longrightarrow> ?om (fst e) = None" for e :: entry
    using orderMapOf_None_iff [of pk "fst e"] by auto
  show "S = ?A @ filter (\<lambda>e. fst e \<notin> set pk) S"
  proof (rule sorted_wrt_partition [where R = "\<lambda>a b. ?f a b \<le> 0"])
    fix a b :: entry assume "fst a \<notin> set pk" "fst b \<in> set pk"
    then show "\<not> ?f a b \<le> 0" using pri [of b] rest [of a] by (auto dest: cmpInt_pri_after)
  qed (rule sorted)
  show "sorted_wrt (\<lambda>a b. localeCompare (fst a) (fst b) \<le> 0) (filter (\<lambda>e. fst e \<notin> set pk) S)"
  proof (rule sorted_wrt_mono_rel [where P = "\<lambda>a b. ?f a b \<le> 0"])
    show "sorted_wrt (\<lambda>a b. ?f a b \<le> 0) (filter (\<lambda>e. fst e \<notin> set pk) S)"
      using sorted by (rule sorted_wrt_filter)
  next
    fix x y :: entry
    assume "x \<in> set (filter (\<lambda>e. fst e \<notin> set pk) S)" "y \<in> set (filter (\<lambda>e. fst e \<notin> set pk) S)"
      and le: "?f x y \<le> 0"
    then have "?om (fst x) = None" "?om (fst y) = None" using rest by simp_all
    with le show "localeCompare (fst x) (fst y) \<le> 0" by (simp add: cmpInt_both_rest)
  qed
  show "map fst ?A = ?B"
  proof -
    have "sorted_wrt (\<lambda>a b. ?f a b \<le> 0 \<and> fst a \<noteq> fst b) S"
      using sorted distS by (rule sorted_wrt_and_distinct)
    then have "sorted_wrt (\<lambda>a b. ?f a b \<le> 0 \<and> fst a \<noteq> fst b) ?A"
      by (rule sorted_wrt_filter)
    then have "sorted_wrt (\<lambda>a b. ?idx (fst a) < ?idx (fst b)) ?A"
    proof (rule sorted_wrt_mono_rel [rotated])
      fix x y :: entry
      assume "x \<in> set ?A" "y \<in> set ?A" and r: "?f x y \<le> 0 \<and> fst x \<noteq> fst y"
      then obtain i j where i: "?om (fst x) = Some i" and j: "?om (fst y) = Some j"
        using pri [of x] pri [of y] by auto
      with r have "i \<le> j" by (simp add: cmpInt_both_pri)
      moreover have "i \<noteq> j" using i j r orderMapOf_inj [of pk "fst x" i "fst y"] by auto
      ultimately show "?idx (fst x) < ?idx (fst y)" using i j by simp
    qed
    then have sa: "sorted_wrt (<) (map ?idx (map fst ?A))"
      by (simp add: sorted_wrt_map)
    have "sorted_wrt (\<lambda>a b. ?idx a < ?idx b) ?B"
      using orderMapOf_grows [of pk] by (rule sorted_wrt_filter)
    then have sb: "sorted_wrt (<) (map ?idx ?B)" by (simp add: sorted_wrt_map)
    have sets: "set (map fst ?A) = set ?B" using setS by auto
    then have "set (map ?idx (map fst ?A)) = set (map ?idx ?B)" by (simp only: set_map)
    with sb sa have eq: "map ?idx (map fst ?A) = map ?idx ?B" by (rule strict_sorted_equal)
    have "inj_on ?idx (set (map fst ?A) \<union> set ?B)"
      by (rule inj_on_subset [OF orderMapOf_inj_on]) auto
    with eq show ?thesis by (simp only: inj_on_map_eq_map)
  qed
qed

lemma orderMetadataWith_sorted:
  assumes "distinct (map fst md)"
    and "\<forall>e \<in> set md. fst e \<noteq> [] \<and> fst e \<noteq> ''__proto__'' \<and> \<not> isArrayIndex (fst e)"
  shows "\<exists>obj. orderMetadataWith pk md = Inr obj
               \<and> objectEntries obj = sortPure (cmpInt (orderMapOf pk)) md"
proof -
  let ?om = "orderMapOf pk"
  let ?S = "sortPure (cmpInt ?om) md"
  have "\<forall>x \<in> set md. \<forall>y \<in> set md. compareEntries ?om x y = Inr (cmpInt ?om x y)"
    using assms(2) by (simp add: compareEntries_cmpInt)
  then have srt: "sortBy (compareEntries ?om) md = Inr ?S" by (rule sortBy_pure)
  have ms: "mset ?S = mset md" by (rule mset_sortPure)
  then have setS: "set ?S = set md" by (rule mset_eq_setD)
  from ms have "mset (map fst ?S) = mset (map fst md)" by simp
  with assms(1) have distS: "distinct (map fst ?S)" using mset_eq_imp_distinct_iff by blast
  have "buildResult ?S emptyObject = Inr (emptyObject\<lparr>props := props emptyObject @ ?S\<rparr>)"
  proof (rule buildResult_fresh)
    show "\<forall>e \<in> set ?S. fst e \<noteq> [] \<and> fst e \<noteq> ''__proto__''" using assms(2) setS by simp
    show "distinct (map fst ?S)" by (rule distS)
    show "set (map fst ?S) \<inter> set (map fst (props emptyObject)) = {}"
      by (simp add: emptyObject_def)
  qed
  then have br: "buildResult ?S emptyObject = Inr \<lparr>proto = None, props = ?S\<rparr>"
    by (simp add: emptyObject_def)
  have "objectEntries \<lparr>proto = None, props = ?S\<rparr> = ?S"
    using assms(2) setS by (simp add: objectEntries_plain)
  with srt br show ?thesis by (simp add: orderMetadataWith_def)
qed

lemmas evalOrder = orderMetadataWith_def orderMapOf_def compareEntries_def localeCompare_def
  collationKeys_def isDigit_def charKey_def digitValue_def keyLess_def emptyObject_def
  objectSet_def objectEntries_def isArrayIndex_def natOfDigits_def

lemmas evalFlatten = orderMetadata_def orderedProperties_def recursivelyGetProperties_def
  propertiesToIgnore_def

lemma insertBy_mset: "insertBy cmp x ys = Inr r \<Longrightarrow> mset r = add_mset x (mset ys)"
proof (induction ys arbitrary: r)
  case Nil
  then show ?case by auto
next
  case (Cons y ys)
  then show ?case by (auto split: sum.splits if_splits)
qed

lemma sortBy_mset: "sortBy cmp xs = Inr ys \<Longrightarrow> mset ys = mset xs"
proof (induction xs arbitrary: ys)
  case Nil
  then show ?case by simp
next
  case (Cons x xs)
  then show ?case by (auto split: sum.splits dest: insertBy_mset)
qed

lemma insertBy_error:
  assumes "\<And>a b e. cmp a b = Inl e \<Longrightarrow> e = err"
  shows "insertBy cmp x ys = Inl e \<Longrightarrow> e = err"
  by (induction ys) (auto split: sum.splits if_splits dest: assms)

lemma sortBy_error:
  assumes "\<And>a b e. cmp a b = Inl e \<Longrightarrow> e = err"
  shows "sortBy cmp xs = Inl e \<Longrightarrow> e = err"
proof (induction xs arbitrary: e)
  case Nil
  then show ?case by simp
next
  case (Cons x xs)
  show ?case
  proof (cases "sortBy cmp xs")
    case (Inl e')
    with Cons show ?thesis by simp
  next
    case (Inr sortedItems)
    with Cons.prems have "insertBy cmp x sortedItems = Inl e" by simp
    then show ?thesis using assms by (rule insertBy_error [rotated])
  qed
qed

lemma compareEntries_error: "compareEntries om a b = Inl e \<Longrightarrow> e = InvalidSortKey"
  by (auto simp: compareEntries_def Let_def split: if_splits)

lemma buildResult_empty_key:
  "\<exists>item \<in> set items. fst item = [] \<Longrightarrow> buildResult items obj = Inl InvalidKey"
  by (induction items arbitrary: obj) auto

lemma orderMetadataWith_throws:
  assumes "\<exists>y \<in> set md. fst y = []"
  shows "orderMetadataWith pk md = Inl InvalidSortKey \<or> orderMetadataWith pk md = Inl InvalidKey"
proof (cases "sortBy (compareEntries (orderMapOf pk)) md")
  case (Inl e)
  then have "e = InvalidSortKey" using compareEntries_error by (rule sortBy_error [rotated])
  with Inl show ?thesis by (simp add: orderMetadataWith_def)
next
  case (Inr sortedItems)
  then have "mset sortedItems = mset md" by (rule sortBy_mset)
  then have "set sortedItems = set md" by (rule mset_eq_setD)
  with assms have "\<exists>item \<in> set sortedItems. fst item = []" by simp
  then have "buildResult sortedItems emptyObject = Inl InvalidKey"
    by (rule buildResult_empty_key)
  with Inr show ?thesis by (simp add: orderMetadataWith_def)
qed

lemma order_example:
  "(case orderMetadataWith [''title'', ''createdTimestampUsec'']
           [(''zeta'', JStr ''z''), (''title'', JStr ''t''), (''createdTimestampUsec'', JNum 5),
            (''alpha2'', JNull), (''alpha10'', JNull)] of
      Inr obj \<Rightarrow> map fst (objectEntries obj) | Inl e \<Rightarrow> [])
   = [''title'', ''createdTimestampUsec'', ''alpha2'', ''alpha10'', ''zeta'']"
  by (simp add: evalOrder)

text \<open>
  C3 (as the code has it).  For entries with pairwise distinct paths, none of them empty,
  \<open>__proto__\<close> or an array index, and for every priority list, \<open>orderMetadata\<close> returns an
  object whose entries are those of the input: first the ones whose path is a priority key,
  in the order of the priority list (a key listed twice counts at its last position), then
  all the others, sorted by path under the collation.  With the priority list
  \<open>title, createdTimestampUsec\<close> and the paths \<open>zeta, title, createdTimestampUsec, alpha2,
  alpha10\<close> the output order is \<open>title, createdTimestampUsec, alpha2, alpha10, zeta\<close>.
  On every input that holds an entry with the empty path the function throws.
\<close>

theorem priority_first_then_collation:
  "(distinct (map fst md) \<and>
    (\<forall>e \<in> set md. fst e \<noteq> [] \<and> fst e \<noteq> ''__proto__'' \<and> \<not> isArrayIndex (fst e)) \<longrightarrow>
    (\<exists>obj pri rest.
        orderMetadataWith pk md = Inr obj \<and> objectEntries obj = pri @ rest \<and>
        mset (pri @ rest) = mset md \<and>
        map fst pri = filter (\<lambda>k. k \<in> fst ` set md) (remdups pk) \<and>
        list_all (\<lambda>e. fst e \<notin> set pk) rest \<and>
        sorted_wrt (\<lambda>a b. localeCompare (fst a) (fst b) \<le> 0) rest)) \<and>
   ((\<exists>y \<in> set md. fst y = []) \<longrightarrow>
      orderMetadataWith pk md = Inl InvalidSortKey \<or> orderMetadataWith pk md = Inl InvalidKey) \<and>
   (case orderMetadataWith [''title'', ''createdTimestampUsec'']
           [(''zeta'', JStr ''z''), (''title'', JStr ''t''), (''createdTimestampUsec'', JNum 5),
            (''alpha2'', JNull), (''alpha10'', JNull)] of
      Inr obj \<Rightarrow> map fst (objectEntries obj) | Inl e \<Rightarrow> [])
   = [''title'', ''createdTimestampUsec'', ''alpha2'', ''alpha10'', ''zeta'']"
proof (intro conjI impI)
  assume h: "distinct (map fst md) \<and>
    (\<forall>e \<in> set md. fst e \<noteq> [] \<and> fst e \<noteq> ''__proto__'' \<and> \<not> isArrayIndex (fst e))"
  let ?S = "sortPure (cmpInt (orderMapOf pk)) md"
  let ?pri = "filter (\<lambda>e. fst e \<in> set pk) ?S"
  let ?rest = "filter (\<lambda>e. fst e \<notin> set pk) ?S"
  from h obtain obj where obj: "orderMetadataWith pk md = Inr obj" "objectEntries obj = ?S"
    using orderMetadataWith_sorted [of md pk] by blast
  from h have d: "distinct (map fst md)" by simp
  have split: "?S = ?pri @ ?rest" by (rule sortPure_shape(2) [OF d])
  have "objectEntries obj = ?pri @ ?rest" using obj(2) split by simp
  moreover have "mset (?pri @ ?rest) = mset md"
    using sortPure_shape(1) [OF d, of pk] split by simp
  moreover have "map fst ?pri = filter (\<lambda>k. k \<in> fst ` set md) (remdups pk)"
    by (rule sortPure_shape(3) [OF d])
  moreover have "list_all (\<lambda>e. fst e \<notin> set pk) ?rest" by (simp add: list_all_iff)
  moreover have "sorted_wrt (\<lambda>a b. localeCompare (fst a) (fst b) \<le> 0) ?rest"
    by (rule sortPure_shape(4) [OF d])
  ultimately show "\<exists>obj pri rest.
        orderMetadataWith pk md = Inr obj \<and> objectEntries obj = pri @ rest \<and>
        mset (pri @ rest) = mset md \<and>
        map fst pri = filter (\<lambda>k. k \<in> fst ` set md) (remdups pk) \<and>
        list_all (\<lambda>e. fst e \<notin> set pk) rest \<and>
        sorted_wrt (\<lambda>a b. localeCompare (fst a) (fst b) \<le> 0) rest"
    using obj(1) by blast
next
  assume "\<exists>y \<in> set md. fst y = []"
  then show "orderMetadataWith pk md = Inl InvalidSortKey \<or> orderMetadataWith pk md = Inl InvalidKey"
    by (rule orderMetadataWith_throws)
next
  show "(case orderMetadataWith [''title'', ''createdTimestampUsec'']
           [(''zeta'', JStr ''z''), (''title'', JStr ''t''), (''createdTimestampUsec'', JNum 5),
            (''alpha2'', JNull), (''alpha10'', JNull)] of
      Inr obj \<Rightarrow> map fst (objectEntries obj) | Inl e \<Rightarrow> [])
   = [''title'', ''createdTimestampUsec'', ''alpha2'', ''alpha10'', ''zeta'']"
    by (rule order_example)
qed

theorem priority_first_then_collation_witness:
  "distinct (map fst [(''zeta'', JStr ''z''), (''title'', JStr ''t''), (''alpha2'', JNull)]) \<and>
   list_all (\<lambda>e. fst e \<noteq> [] \<and> fst e \<noteq> ''__proto__'' \<and> \<not> isArrayIndex (fst e))
     [(''zeta'', JStr ''z''), (''title'', JStr ''t''), (''alpha2'', JNull)] \<and>
   (\<exists>obj pri rest.
        orderMetadataWith [''title'', ''createdTimestampUsec'']
          [(''zeta'', JStr ''z''), (''title'', JStr ''t''), (''alpha2'', JNull)] = Inr obj \<and>
        objectEntries obj = pri @ rest \<and>
        map fst pri = [''title''] \<and>
        list_all (\<lambda>e. fst e \<notin> set [''title'', ''createdTimestampUsec'']) rest \<and>
        sorted_wrt (\<lambda>a b. localeCompare (fst a) (fst b) \<le> 0) rest) \<and>
   list_ex (\<lambda>y. fst y = []) [(''title'', JStr ''t''), ([], JNum 1)] \<and>
   (orderMetadataWith [''title'', ''createdTimestampUsec'']
      [(''title'', JStr ''t''), ([], JNum 1)] = Inl InvalidSortKey \<or>
    orderMetadataWith [''title'', ''createdTimestampUsec'']
      [(''title'', JStr ''t''), ([], JNum 1)] = Inl InvalidKey)"
proof -
  let ?md = "[(''zeta'', JStr ''z''), (''title'', JStr ''t''), (''alpha2'', JNull)]"
  let ?bad = "[(''title'', JStr ''t''), ([], JNum 1 :: json)]"
  let ?pk = "[''title'', ''createdTimestampUsec'']"
  have h1: "distinct (map fst ?md)" by simp
  have h2: "\<forall>e \<in> set ?md. fst e \<noteq> [] \<and> fst e \<noteq> ''__proto__'' \<and> \<not> isArrayIndex (fst e)"
    by (simp add: isArrayIndex_def isDigit_def)
  have f: "filter (\<lambda>k. k \<in> fst ` set ?md) (remdups ?pk) = [''title'']" by simp
  from priority_first_then_collation [of ?md ?pk] h1 h2
  obtain obj pri rest where
    o: "orderMetadataWith ?pk ?md = Inr obj" "objectEntries obj = pri @ rest"
    "map fst pri = filter (\<lambda>k. k \<in> fst ` set ?md) (remdups ?pk)"
    "list_all (\<lambda>e. fst e \<notin> set ?pk) rest"
    "sorted_wrt (\<lambda>a b. localeCompare (fst a) (fst b) \<le> 0) rest"
    by blast
  have p: "map fst pri = [''title'']" by (simp only: o(3) f)
  have ex: "\<exists>obj pri rest.
        orderMetadataWith ?pk ?md = Inr obj \<and> objectEntries obj = pri @ rest \<and>
        map fst pri = [''title''] \<and>
        list_all (\<lambda>e. fst e \<notin> set ?pk) rest \<and>
        sorted_wrt (\<lambda>a b. localeCompare (fst a) (fst b) \<le> 0) rest"
    by (intro exI conjI) (rule o(1), rule o(2), rule p, rule o(4), rule o(5))
  from h2 have h2': "list_all (\<lambda>e. fst e \<noteq> [] \<and> fst e \<noteq> ''__proto__'' \<and> \<not> isArrayIndex (fst e)) ?md"
    by (simp only: list_all_iff)
  have h3: "\<exists>y \<in> set ?bad. fst y = []" by simp
  then have h3': "list_ex (\<lambda>y. fst y = []) ?bad" by (simp only: list_ex_iff)
  from priority_first_then_collation [of ?bad ?pk] h3
  have thr: "orderMetadataWith ?pk ?bad = Inl InvalidSortKey
             \<or> orderMetadataWith ?pk ?bad = Inl InvalidKey"
    by blast
  show ?thesis by (intro conjI) (rule h1, rule h2', rule ex, rule h3', rule thr)
qed

text \<open>
  C3 (as stated) fails on entry sets that flattening can produce.  A property with the
  empty name gives an entry with the empty path, and the comparator throws; a property
  named \<open>7\<close> gives a path that is an array index, and the result object lists it before
  the priority key \<open>title\<close>; a property named \<open>__proto__\<close> gives an entry that the
  assignment to the result object drops; a property with a dot in its name gives a path
  that another entry has too, and the result object keeps one property for the two.
\<close>

theorem order_counterexample:
  "orderMetadata
     (recursivelyGetProperties (JObj [(''title'', JStr ''t''), ([], JNum 1)]) [] None)
     = Inl InvalidSortKey \<and>
   (case orderMetadata
           (recursivelyGetProperties (JObj [(''title'', JStr ''t''), (''7'', JNum 1)]) [] None) of
      Inr obj \<Rightarrow> map fst (objectEntries obj) | Inl e \<Rightarrow> [])
     = [''7'', ''title''] \<and>
   (case orderMetadata
           (recursivelyGetProperties
              (JObj [(''title'', JStr ''t''), (''__proto__'', JNum 1)]) [] None) of
      Inr obj \<Rightarrow> map fst (objectEntries obj) | Inl e \<Rightarrow> [])
     = [''title''] \<and>
   recursivelyGetProperties (JObj [(''a.b'', JNum 1), (''a'', JObj [(''b'', JNum 2)])]) [] None
     = [(''a.b'', JNum 1), (''a.b'', JNum 2)] \<and>
   (case orderMetadata
           (recursivelyGetProperties
              (JObj [(''a.b'', JNum 1), (''a'', JObj [(''b'', JNum 2)])]) [] None) of
      Inr obj \<Rightarrow> objectEntries obj | Inl e \<Rightarrow> [])
     = [(''a.b'', JNum 2)]"
  by (simp add: evalFlatten evalOrder)

section \<open>Properties of the contact pipeline\<close>

lemma formatTenDigits_unchanged: "\<not> hasTenDigits s \<Longrightarrow> formatTenDigits s = s"
  by (induction s) auto

lemma formatTenDigits_exact:
  assumes "length ds = 10" and "list_all isDigit ds"
  shows "formatTenDigits ds
           = ''('' @ take 3 ds @ '') '' @ take 3 (drop 3 ds) @ ''-'' @ drop 6 ds"
proof (cases ds)
  case Nil
  with assms show ?thesis by simp
next
  case (Cons c cs)
  have "take 4 (drop 6 ds) = drop 6 ds" using assms(1) by simp
  moreover have "drop 10 ds = []" using assms(1) by simp
  moreover have "take 10 ds = ds" using assms(1) by simp
  ultimately show ?thesis using assms unfolding Cons by (simp del: take_Suc_Cons drop_Suc_Cons)
qed

lemma stripPlusOne_plus_one: "stripPlusOne (''+1'' @ ds) = ds"
  by (simp add: stripPlusOne_def)

lemma stripPlusOne_other: "take 2 n \<noteq> ''+1'' \<Longrightarrow> stripPlusOne n = n"
  by (simp add: stripPlusOne_def)

lemma phones_concat:
  "map the (filter (\<lambda>p. p \<noteq> None) (map f raws))
     = concat (map (\<lambda>raw. case f raw of None \<Rightarrow> [] | Some p \<Rightarrow> [p]) raws)"
  by (induction raws) (auto split: option.splits)

text \<open>
  Each raw phone string contributes at most one entry to the phones list, in order: none
  when validation fails; \<open>(NNN) NNN-NNNN\<close> when the normalized number is \<open>+1\<close> followed by
  ten digits; the normalized number itself when it does not start with \<open>+1\<close> and holds no
  ten digits in a row.  A normalized number that does not start with \<open>+1\<close> and holds ten
  digits in a row is never returned as it is.
\<close>

lemma formatTenDigits_longer: "hasTenDigits s \<Longrightarrow> length (formatTenDigits s) = length s + 4"
  by (induction s) auto

lemma formatPhoneNumber_rewrites:
  assumes "phone raw = PhoneValid n" and "take 2 n \<noteq> ''+1''" and "hasTenDigits n"
  shows "formatPhoneNumber phone raw \<noteq> Some n"
proof -
  have "length (formatTenDigits n) \<noteq> length n" using formatTenDigits_longer [OF assms(3)] by simp
  then have "formatTenDigits n \<noteq> n" by auto
  with assms(1,2) show ?thesis by (simp add: formatPhoneNumber_def stripPlusOne_other)
qed

lemma formatPhoneNumber_cases:
  "(contact_info c = Some info \<and> ci_phones info = Some raws \<longrightarrow>
      phonesOf phone c
        = concat (map (\<lambda>raw. case formatPhoneNumber phone raw of None \<Rightarrow> [] | Some p \<Rightarrow> [p])
                    raws)) \<and>
   (phone raw = PhoneInvalid \<longrightarrow> formatPhoneNumber phone raw = None) \<and>
   (phone raw = PhoneValid (''+1'' @ ds) \<and> length ds = 10 \<and> list_all isDigit ds \<longrightarrow>
      formatPhoneNumber phone raw
        = Some (''('' @ take 3 ds @ '') '' @ take 3 (drop 3 ds) @ ''-'' @ drop 6 ds)) \<and>
   (phone raw = PhoneValid n \<and> take 2 n \<noteq> ''+1'' \<and> \<not> hasTenDigits n \<longrightarrow>
      formatPhoneNumber phone raw = Some n)"
proof (intro conjI impI)
  assume "contact_info c = Some info \<and> ci_phones info = Some raws"
  then show "phonesOf phone c
        = concat (map (\<lambda>raw. case formatPhoneNumber phone raw of None \<Rightarrow> [] | Some p \<Rightarrow> [p])
                    raws)"
    using phones_concat [of "formatPhoneNumber phone" raws] by (simp add: phonesOf_def)
next
  assume "phone raw = PhoneInvalid"
  then show "formatPhoneNumber phone raw = None" by (simp add: formatPhoneNumber_def)
next
  assume "phone raw = PhoneValid (''+1'' @ ds) \<and> length ds = 10 \<and> list_all isDigit ds"
  then show "formatPhoneNumber phone raw
        = Some (''('' @ take 3 ds @ '') '' @ take 3 (drop 3 ds) @ ''-'' @ drop 6 ds)"
    by (simp only: formatPhoneNumber_def phoneResult.case stripPlusOne_plus_one
          formatTenDigits_exact)
next
  assume "phone raw = PhoneValid n \<and> take 2 n \<noteq> ''+1'' \<and> \<not> hasTenDigits n"
  then show "formatPhoneNumber phone raw = Some n"
    by (simp add: formatPhoneNumber_def stripPlusOne_other formatTenDigits_unchanged)
qed

lemma formatPhoneNumber_cases_sample:
  "contact_info sampleContact
     = Some \<lparr>ci_emails = Some [''Jane@Example.org''],
             ci_phones = Some [''n/a'', ''817-569-8900'', ''+298 123456'']\<rparr> \<and>
   samplePhone ''n/a'' = PhoneInvalid \<and>
   samplePhone ''817-569-8900'' = PhoneValid (''+1'' @ ''8175698900'') \<and>
   samplePhone ''+298 123456'' = PhoneValid ''+298123456'' \<and>
   formatPhoneNumber samplePhone ''n/a'' = None \<and>
   formatPhoneNumber samplePhone ''817-569-8900'' = Some ''(817) 569-8900'' \<and>
   formatPhoneNumber samplePhone ''+298 123456'' = Some ''+298123456'' \<and>
   phonesOf samplePhone sampleContact = [''(817) 569-8900'', ''+298123456'']"
proof -
  let ?info = "\<lparr>ci_emails = Some [''Jane@Example.org''],
             ci_phones = Some [''n/a'', ''817-569-8900'', ''+298 123456'']\<rparr>"
  let ?raws = "[''n/a'', ''817-569-8900'', ''+298 123456'']"
  have c: "contact_info sampleContact = Some ?info \<and> ci_phones ?info = Some ?raws"
    by (simp add: sampleContact_def)
  have p1: "samplePhone ''n/a'' = PhoneInvalid" by (simp add: samplePhone_def)
  have p2: "samplePhone ''817-569-8900'' = PhoneValid (''+1'' @ ''8175698900'')
            \<and> length ''8175698900'' = 10 \<and> list_all isDigit ''8175698900''"
    by (simp add: samplePhone_def isDigit_def)
  have p3: "samplePhone ''+298 123456'' = PhoneValid ''+298123456''
            \<and> take 2 ''+298123456'' \<noteq> ''+1'' \<and> \<not> hasTenDigits ''+298123456''"
    by (simp add: samplePhone_def isDigit_def)
  have f1: "formatPhoneNumber samplePhone ''n/a'' = None"
    using formatPhoneNumber_cases [of sampleContact ?info ?raws samplePhone "''n/a''"] p1 by blast
  have f2: "formatPhoneNumber samplePhone ''817-569-8900'' = Some ''(817) 569-8900''"
    using formatPhoneNumber_cases [of sampleContact ?info ?raws samplePhone "''817-569-8900''"
            "''8175698900''"] p2
    by simp
  have f3: "formatPhoneNumber samplePhone ''+298 123456'' = Some ''+298123456''"
    using formatPhoneNumber_cases [of sampleContact ?info ?raws samplePhone "''+298 123456''" _
            "''+298123456''"] p3
    by blast
  have "phonesOf samplePhone sampleContact
          = concat (map (\<lambda>raw. case formatPhoneNumber samplePhone raw of
                                  None \<Rightarrow> [] | Some p \<Rightarrow> [p]) ?raws)"
    using formatPhoneNumber_cases [of sampleContact ?info ?raws samplePhone] c by blast
  then have l: "phonesOf samplePhone sampleContact = [''(817) 569-8900'', ''+298123456'']"
    by (simp add: f1 f2 f3)
  from c p1 p2 p3 f1 f2 f3 l show ?thesis by simp
qed

text \<open>
  C4, on a valid number under another calling code.  The raw string \<open>+44 7911 123456\<close>
  passes validation with the normalized form \<open>+447911123456\<close>.  It does not start with
  \<open>+1\<close>, so nothing is stripped; it holds ten digits in a row, and the unanchored pattern
  rewrites the leftmost ten.  The phones list of a contact with this one number holds
  \<open>+(447) 911-123456\<close>, not the normalized number.
\<close>

theorem foreign_number_rewritten:
  "samplePhone ''+44 7911 123456'' = PhoneValid ''+447911123456'' \<and>
   stripPlusOne ''+447911123456'' = ''+447911123456'' \<and>
   formatPhoneNumber samplePhone ''+44 7911 123456'' = Some ''+(447) 911-123456'' \<and>
   formatPhoneNumber samplePhone ''+44 7911 123456'' \<noteq> Some ''+447911123456'' \<and>
   phonesOf samplePhone
     (sampleContact\<lparr>contact_info :=
        Some \<lparr>ci_emails = None, ci_phones = Some [''+44 7911 123456'']\<rparr>\<rparr>)
     = [''+(447) 911-123456'']"
  by (simp add: samplePhone_def formatPhoneNumber_def stripPlusOne_def isDigit_def
        phonesOf_def sampleContact_def)

lemma toOutputItem_profileUrl:
  "toOutputItem phone c = Some item \<Longrightarrow>
   \<exists>pid. provider c = ''LINKEDIN'' \<and> public_identifier c = Some pid
         \<and> profileUrl item = Some (''https://www.linkedin.com/in/'' @ pid)"
  by (auto simp: toOutputItem_def orNull_def split: option.splits if_splits)

lemma stepUrl_outputData:
  assumes "item \<in> set (outputData (stepUrl phone getProfile st url))"
  shows "item \<in> set (outputData st) \<or>
         (\<exists>urn c. profileUrnOf url = Some urn \<and> getProfile urn = Inr c
                  \<and> toOutputItem phone c = Some item)"
proof (cases "truthyString (profileUrnOf url)")
  case False
  with assms show ?thesis by (simp add: stepUrl_def)
next
  case True
  then obtain urn where urn: "profileUrnOf url = Some urn" by (cases "profileUrnOf url") auto
  show ?thesis
  proof (cases "getProfile urn")
    case (Inl err)
    with assms True urn show ?thesis by (simp add: stepUrl_def)
  next
    case (Inr c)
    with assms True urn show ?thesis
      by (cases "toOutputItem phone c") (auto simp: stepUrl_def)
  qed
qed

lemma scrape_outputData:
  "item \<in> set (outputData (fold (\<lambda>url st. stepUrl phone getProfile st url) urls st)) \<Longrightarrow>
   item \<in> set (outputData st) \<or>
   (\<exists>url \<in> set urls. \<exists>urn c. profileUrnOf url = Some urn \<and> getProfile urn = Inr c
                              \<and> toOutputItem phone c = Some item)"
proof (induction urls arbitrary: st)
  case Nil
  then show ?case by simp
next
  case (Cons url urls)
  from Cons.prems have "item \<in> set (outputData (fold (\<lambda>url st. stepUrl phone getProfile st url)
                          urls (stepUrl phone getProfile st url)))"
    by simp
  from Cons.IH [OF this] show ?case
    using stepUrl_outputData [of item phone getProfile st url] by auto
qed

text \<open>
  C9.  Every record of the output comes from a lookup that returned a LinkedIn profile
  with a string identifier, and its \<open>profileUrl\<close> is the fixed prefix followed by that
  identifier: never null.
\<close>

theorem profileUrl_never_null:
  assumes "item \<in> set (outputData (scrape phone getProfile urls))"
  shows "\<exists>url urn c pid.
           url \<in> set urls \<and> profileUrnOf url = Some urn \<and> getProfile urn = Inr c \<and>
           provider c = ''LINKEDIN'' \<and> public_identifier c = Some pid \<and>
           profileUrl item = Some (''https://www.linkedin.com/in/'' @ pid)"
proof -
  from assms scrape_outputData [of item phone getProfile urls "\<lparr>outputData = [], trace = []\<rparr>"]
  obtain url urn c where u: "url \<in> set urls" "profileUrnOf url = Some urn"
    "getProfile urn = Inr c" "toOutputItem phone c = Some item"
    unfolding scrape_def by auto
  from toOutputItem_profileUrl [OF u(4)] obtain pid where
    "provider c = ''LINKEDIN''" "public_identifier c = Some pid"
    "profileUrl item = Some (''https://www.linkedin.com/in/'' @ pid)"
    by blast
  with u show ?thesis by blast
qed

lemma urn_jane: "profileUrnOf ''https://www.linkedin.com/in/jane-roe'' = Some ''jane-roe''"
  by (simp add: profileUrnOf_def)

lemma urn_john: "profileUrnOf ''https://www.linkedin.com/in/john-doe'' = Some ''john-doe''"
  by (simp add: profileUrnOf_def)

lemma sample_item:
  "toOutputItem samplePhone sampleContact
     = Some \<lparr>fullName = Some ''Jane Roe'',
             profileUrl = Some ''https://www.linkedin.com/in/jane-roe'',
             emails = [''jane@example.org''],
             phones = [''(817) 569-8900'', ''+298123456''],
             currentCompanyRole = None\<rparr>"
  by (simp add: toOutputItem_def sampleContact_def orNull_def emailsOf_def toLowerCase_def
        phonesOf_def formatPhoneNumber_def samplePhone_def stripPlusOne_def isDigit_def
        currentCompanyRoleOf_def)

lemma sample_run:
  "scrape samplePhone sampleLookup
     [''https://www.linkedin.com/in/john-doe'', ''https://www.linkedin.com/in/jane-roe'']
   = \<lparr>outputData = [\<lparr>fullName = Some ''Jane Roe'',
             profileUrl = Some ''https://www.linkedin.com/in/jane-roe'',
             emails = [''jane@example.org''],
             phones = [''(817) 569-8900'', ''+298123456''],
             currentCompanyRole = None\<rparr>],
      trace = [GetProfile ''john-doe'', LogLookupError ''https://www.linkedin.com/in/john-doe'',
               GetProfile ''jane-roe'', LogRecordAdded ''https://www.linkedin.com/in/jane-roe'',
               Sleep]\<rparr>"
  by (simp add: scrape_def stepUrl_def Let_def urn_jane urn_john sampleLookup_def sample_item)

theorem profileUrl_never_null_witness:
  "\<lparr>fullName = Some ''Jane Roe'',
     profileUrl = Some ''https://www.linkedin.com/in/jane-roe'',
     emails = [''jane@example.org''],
     phones = [''(817) 569-8900'', ''+298123456''],
     currentCompanyRole = None\<rparr>
     \<in> set (outputData (scrape samplePhone sampleLookup
         [''https://www.linkedin.com/in/john-doe'', ''https://www.linkedin.com/in/jane-roe''])) \<and>
   (\<exists>url urn c pid.
       url \<in> set [''https://www.linkedin.com/in/john-doe'', ''https://www.linkedin.com/in/jane-roe''] \<and>
       profileUrnOf url = Some urn \<and> sampleLookup urn = Inr c \<and>
       provider c = ''LINKEDIN'' \<and> public_identifier c = Some pid \<and>
       Some ''https://www.linkedin.com/in/jane-roe'' = Some (''https://www.linkedin.com/in/'' @ pid))"
proof -
  let ?item = "\<lparr>fullName = Some ''Jane Roe'',
     profileUrl = Some ''https://www.linkedin.com/in/jane-roe'',
     emails = [''jane@example.org''],
     phones = [''(817) 569-8900'', ''+298123456''],
     currentCompanyRole = None\<rparr>"
  have h: "?item \<in> set (outputData (scrape samplePhone sampleLookup
         [''https://www.linkedin.com/in/john-doe'', ''https://www.linkedin.com/in/jane-roe'']))"
    by (simp only: sample_run scrapeState.simps list.set insertI1)
  from profileUrl_never_null [OF h]
  have "\<exists>url urn c pid.
       url \<in> set [''https://www.linkedin.com/in/john-doe'', ''https://www.linkedin.com/in/jane-roe''] \<and>
       profileUrnOf url = Some urn \<and> sampleLookup urn = Inr c \<and>
       provider c = ''LINKEDIN'' \<and> public_identifier c = Some pid \<and>
       Some ''https://www.linkedin.com/in/jane-roe'' = Some (''https://www.linkedin.com/in/'' @ pid)"
    by (simp only: outputItem.simps)
  with h show ?thesis by (rule conjI)
qed

text \<open>
  C5, on a run of two URLs where the first lookup throws: the error is logged and the
  second lookup follows at once; the delay comes only after the lookup that returned.
\<close>

theorem no_delay_after_failed_lookup:
  "trace (scrape samplePhone sampleLookup
            [''https://www.linkedin.com/in/john-doe'', ''https://www.linkedin.com/in/jane-roe''])
   = [GetProfile ''john-doe'', LogLookupError ''https://www.linkedin.com/in/john-doe'',
      GetProfile ''jane-roe'', LogRecordAdded ''https://www.linkedin.com/in/jane-roe'', Sleep]"
  by (simp only: sample_run scrapeState.simps)

section \<open>Properties of the note converter\<close>

lemma writes_emit:
  "writes (emit es st)
     = writes st @ concat (map (\<lambda>e. case e of WriteFile p c \<Rightarrow> [(p, c)] | _ \<Rightarrow> []) es)"
  by (simp add: writes_def emit_def)

lemma counts_emit:
  "notesTrashedCount (emit es st) = notesTrashedCount st"
  "notesArchivedCount (emit es st) = notesArchivedCount st"
  "notesUnsortedCount (emit es st) = notesUnsortedCount st"
  by (simp_all add: emit_def)

lemma routeNote_counts:
  "notesTrashedCount (routeNote cfg st t a title md)
     = notesTrashedCount st + (if truthy t then 1 else 0)"
  "notesArchivedCount (routeNote cfg st t a title md)
     = notesArchivedCount st + (if \<not> truthy t \<and> truthy a then 1 else 0)"
  "notesUnsortedCount (routeNote cfg st t a title md)
     = notesUnsortedCount st + (if \<not> truthy t \<and> \<not> truthy a then 1 else 0)"
  by (simp_all add: routeNote_def counts_emit)



lemma deleteOriginal_keeps:
  "notesTrashedCount (deleteOriginal cfg st p title) = notesTrashedCount st"
  "notesArchivedCount (deleteOriginal cfg st p title) = notesArchivedCount st"
  "notesUnsortedCount (deleteOriginal cfg st p title) = notesUnsortedCount st"
  "writes (deleteOriginal cfg st p title) = writes st"
  by (simp_all add: deleteOriginal_def counts_emit writes_emit)

lemma map_of_assignTitle: "k \<noteq> ''title'' \<Longrightarrow> map_of (assignTitle ps v) k = map_of ps k"
proof -
  assume k: "k \<noteq> ''title''"
  have "map_of (map (\<lambda>p. if fst p = ''title'' then (''title'', v) else p) ps) k = map_of ps k"
    using k by (induction ps) auto
  with k k [symmetric] show ?thesis
    by (auto simp: assignTitle_def map_add_def split: option.splits)
qed

text \<open>An iteration that does not throw, taken apart.\<close>

lemma processNote_completes:
  assumes "processNote cfg readJson st note = (st', None)"
  shows "\<exists>v title markdown.
           readJson (noteInputDir cfg @ ''/'' @ (case note of None \<Rightarrow> ''undefined'' | Some n \<Rightarrow> n))
             = Some v \<and>
           st' = deleteOriginal cfg
                   (routeNote cfg
                      (emit [ConsoleLog (''  Note converted to markdown: '' @ title),
                             ConsoleLog (''  '' @ title @ '': '' @ markdown)]
                         (emit [ConsoleLog (''Processing note: ''
                                  @ (case note of None \<Rightarrow> ''undefined'' | Some n \<Rightarrow> n))] st))
                      (map_of (ownProperties v) ''isTrashed'')
                      (map_of (ownProperties v) ''isArchived'') title markdown)
                   (noteInputDir cfg @ ''/'' @ (case note of None \<Rightarrow> ''undefined'' | Some n \<Rightarrow> n))
                   title"
proof -
  let ?name = "case note of None \<Rightarrow> ''undefined'' | Some n \<Rightarrow> n"
  let ?path = "noteInputDir cfg @ ''/'' @ ?name"
  let ?st1 = "emit [ConsoleLog (''Processing note: '' @ ?name)] st"
  from assms obtain v where v: "readJson ?path = Some v"
    by (cases "readJson ?path") (auto simp: processNote_def Let_def)
  from assms v have obj: "isObject v"
    by (auto simp: processNote_def Let_def split: if_splits)
  define titled where
    "titled = (if \<not> truthy (map_of (ownProperties v) ''title'')
               then (case note of None \<Rightarrow> None
                     | Some n \<Rightarrow> Some (assignTitle (ownProperties v) (JStr n)))
               else Some (ownProperties v))"
  have step: "processNote cfg readJson st note
      = (case titled of
           None \<Rightarrow> (?st1, Some TypeError)
         | Some noteJson1 \<Rightarrow>
             (case map_of noteJson1 ''title'' of
                Some (JStr t) \<Rightarrow>
                  (case convertNoteToMarkdown (assignTitle noteJson1 (JStr (normalizeTitle t))) of
                     Inl e \<Rightarrow> (?st1, Some e)
                   | Inr markdown \<Rightarrow>
                       (deleteOriginal cfg
                          (routeNote cfg
                             (emit [ConsoleLog (''  Note converted to markdown: ''
                                                 @ normalizeTitle t),
                                    ConsoleLog (''  '' @ normalizeTitle t @ '': '' @ markdown)]
                                ?st1)
                             (map_of (assignTitle noteJson1 (JStr (normalizeTitle t))) ''isTrashed'')
                             (map_of (assignTitle noteJson1 (JStr (normalizeTitle t)))
                                ''isArchived'')
                             (normalizeTitle t) markdown)
                          ?path (normalizeTitle t), None))
              | _ \<Rightarrow> (?st1, Some TypeError)))"
    unfolding processNote_def titled_def using v obj
    by (auto simp: Let_def split: option.splits json.splits sum.splits)
  from assms step obtain noteJson1 where t1: "titled = Some noteJson1"
    by (cases titled) auto
  have same: "map_of noteJson1 k = map_of (ownProperties v) k" if "k \<noteq> ''title''" for k
    using t1 that unfolding titled_def
    by (auto simp: map_of_assignTitle split: if_splits option.splits)
  from assms step t1 obtain t where t: "map_of noteJson1 ''title'' = Some (JStr t)"
    by (auto split: option.splits json.splits)
  from assms step t1 t obtain markdown where
    md: "convertNoteToMarkdown (assignTitle noteJson1 (JStr (normalizeTitle t))) = Inr markdown"
    by (auto split: sum.splits)
  have flags:
    "map_of (assignTitle noteJson1 (JStr (normalizeTitle t))) ''isTrashed''
       = map_of (ownProperties v) ''isTrashed''"
    "map_of (assignTitle noteJson1 (JStr (normalizeTitle t))) ''isArchived''
       = map_of (ownProperties v) ''isArchived''"
    by (simp_all add: map_of_assignTitle same)
  from assms step t1 t md have
    "st' = deleteOriginal cfg
             (routeNote cfg
                (emit [ConsoleLog (''  Note converted to markdown: '' @ normalizeTitle t),
                       ConsoleLog (''  '' @ normalizeTitle t @ '': '' @ markdown)] ?st1)
                (map_of (ownProperties v) ''isTrashed'')
                (map_of (ownProperties v) ''isArchived'') (normalizeTitle t) markdown)
             ?path (normalizeTitle t)"
    by (simp add: flags)
  with v show ?thesis by blast
qed


lemmas evalRun = run_def processNote_def routeNote_def deleteOriginal_def emit_def
  assignTitle_def normalizeTitle_def convertNoteToMarkdown_def interpolate_def endsWithJson_def
  sampleConfig_def sampleFiles_def emptyState_def Let_def showInt_def decimal_small




text \<open>
  C8, on a directory with one active note.  The run completes and counts the note as
  unsorted, and the report at the end has three lines: the number of JSON files, the
  archived count and the trashed count.  No line reports the unsorted count.
\<close>

theorem unsorted_count_not_reported:
  "snd (run sampleConfig [''memo.json''] sampleFiles) = None \<and>
   notesUnsortedCount (fst (run sampleConfig [''memo.json''] sampleFiles)) = 1 \<and>
   length (effects (fst (run sampleConfig [''memo.json''] sampleFiles))) = 8 \<and>
   drop 5 (effects (fst (run sampleConfig [''memo.json''] sampleFiles)))
     = [ConsoleLog ''Notes total: 1'', ConsoleLog ''Notes archived: 0'',
        ConsoleLog ''Notes trashed: 0'']"
  by (simp add: evalRun evalFlatten evalOrder)

lemma processNote_counts_sum:
  assumes "processNote cfg readJson st note = (st', None)"
  shows "notesArchivedCount st' + notesTrashedCount st' + notesUnsortedCount st'
           = notesArchivedCount st + notesTrashedCount st + notesUnsortedCount st + 1"
proof -
  from processNote_completes [OF assms] obtain v title markdown where
    "st' = deleteOriginal cfg
                   (routeNote cfg
                      (emit [ConsoleLog (''  Note converted to markdown: '' @ title),
                             ConsoleLog (''  '' @ title @ '': '' @ markdown)]
                         (emit [ConsoleLog (''Processing note: ''
                                  @ (case note of None \<Rightarrow> ''undefined'' | Some n \<Rightarrow> n))] st))
                      (map_of (ownProperties v) ''isTrashed'')
                      (map_of (ownProperties v) ''isArchived'') title markdown)
                   (noteInputDir cfg @ ''/'' @ (case note of None \<Rightarrow> ''undefined'' | Some n \<Rightarrow> n))
                   title"
    by blast
  then show ?thesis by (simp add: deleteOriginal_keeps routeNote_counts counts_emit)
qed

lemma processNote_unreadable:
  "readJson (noteInputDir cfg @ ''/'' @ (case note of None \<Rightarrow> ''undefined'' | Some n \<Rightarrow> n)) = None
   \<Longrightarrow> snd (processNote cfg readJson st note) = Some ReadError"
  by (simp add: processNote_def Let_def)

lemma processNote_undefined_no_title:
  assumes "readJson (noteInputDir cfg @ ''/undefined'') = Some v"
    and "\<not> truthy (map_of (ownProperties v) ''title'')"
  shows "snd (processNote cfg readJson st None) = Some TypeError"
  using assms by (simp add: processNote_def Let_def)

lemma run_single_undefined:
  assumes "testOneNote cfg" and "filter endsWithJson notes = []"
  shows "run cfg notes readJson
           = (case processNote cfg readJson emptyState None of
                (st, Some e) \<Rightarrow> (st, Some e)
              | (st, None) \<Rightarrow>
                  (emit [ConsoleLog (''Notes total: '' @ decimal 0),
                         ConsoleLog (''Notes archived: '' @ decimal (notesArchivedCount st)),
                         ConsoleLog (''Notes trashed: '' @ decimal (notesTrashedCount st))] st,
                   None))"
  using assms
  by (cases "processNote cfg readJson emptyState None")
     (auto simp: run_def emptyState_def Let_def split: option.splits)

text \<open>
  C10 (as the code has it).  With the single-note switch on and no \<open>.json\<close> file in the
  directory, the loop runs once on \<open>undefined\<close> and reads the file named \<open>undefined\<close>.
  The run aborts when that file cannot be read as JSON, and when what it holds has no
  truthy title; a run that completes has processed one note, never none.
\<close>

theorem single_note_switch_on_empty_directory:
  assumes "testOneNote cfg" and "filter endsWithJson notes = []"
  shows "(readJson (noteInputDir cfg @ ''/undefined'') = None \<longrightarrow>
            snd (run cfg notes readJson) = Some ReadError) \<and>
         (\<forall>v. readJson (noteInputDir cfg @ ''/undefined'') = Some v \<and>
               \<not> truthy (map_of (ownProperties v) ''title'') \<longrightarrow>
            snd (run cfg notes readJson) = Some TypeError) \<and>
         (snd (run cfg notes readJson) = None \<longrightarrow>
            notesArchivedCount (fst (run cfg notes readJson))
              + notesTrashedCount (fst (run cfg notes readJson))
              + notesUnsortedCount (fst (run cfg notes readJson)) = 1)"
proof -
  note r = run_single_undefined [OF assms, of readJson]
  have a: "readJson (noteInputDir cfg @ ''/undefined'') = None \<longrightarrow>
            snd (run cfg notes readJson) = Some ReadError"
  proof
    assume "readJson (noteInputDir cfg @ ''/undefined'') = None"
    then have "snd (processNote cfg readJson emptyState None) = Some ReadError"
      using processNote_unreadable [of readJson cfg None emptyState] by simp
    then show "snd (run cfg notes readJson) = Some ReadError"
      unfolding r by (cases "processNote cfg readJson emptyState None") auto
  qed
  have b: "\<forall>v. readJson (noteInputDir cfg @ ''/undefined'') = Some v \<and>
               \<not> truthy (map_of (ownProperties v) ''title'') \<longrightarrow>
            snd (run cfg notes readJson) = Some TypeError"
  proof (intro allI impI)
    fix v
    assume "readJson (noteInputDir cfg @ ''/undefined'') = Some v \<and>
               \<not> truthy (map_of (ownProperties v) ''title'')"
    then have "snd (processNote cfg readJson emptyState None) = Some TypeError"
      using processNote_undefined_no_title [of readJson cfg v emptyState] by simp
    then show "snd (run cfg notes readJson) = Some TypeError"
      unfolding r by (cases "processNote cfg readJson emptyState None") auto
  qed
  have c: "snd (run cfg notes readJson) = None \<longrightarrow>
            notesArchivedCount (fst (run cfg notes readJson))
              + notesTrashedCount (fst (run cfg notes readJson))
              + notesUnsortedCount (fst (run cfg notes readJson)) = 1"
  proof
    assume completed: "snd (run cfg notes readJson) = None"
    obtain st e where p: "processNote cfg readJson emptyState None = (st, e)"
      by (cases "processNote cfg readJson emptyState None")
    with completed have e: "e = None" unfolding r by (cases e) auto
    from processNote_counts_sum [OF p [unfolded e]]
    have "notesArchivedCount st + notesTrashedCount st + notesUnsortedCount st = 1"
      by (simp add: emptyState_def)
    then show "notesArchivedCount (fst (run cfg notes readJson))
              + notesTrashedCount (fst (run cfg notes readJson))
              + notesUnsortedCount (fst (run cfg notes readJson)) = 1"
      unfolding r p e by (simp add: counts_emit)
  qed
  from a b c show ?thesis by (intro conjI)
qed

theorem single_note_switch_on_empty_directory_witness:
  "testOneNote (sampleConfig\<lparr>testOneNote := True\<rparr>) \<and>
   filter endsWithJson [''notes.txt''] = [] \<and>
   (\<lambda>path. None) (noteInputDir (sampleConfig\<lparr>testOneNote := True\<rparr>) @ ''/undefined'')
     = (None :: json option) \<and>
   snd (run (sampleConfig\<lparr>testOneNote := True\<rparr>) [''notes.txt''] (\<lambda>path. None))
     = Some ReadError"
proof -
  have h1: "testOneNote (sampleConfig\<lparr>testOneNote := True\<rparr>)" by simp
  have h2: "filter endsWithJson [''notes.txt''] = []" by (simp add: endsWithJson_def)
  from single_note_switch_on_empty_directory [OF h1 h2, of "\<lambda>path. None"] h1 h2
  show ?thesis by simp
qed

text \<open>
  C10 (as stated) fails when the directory holds a file named \<open>undefined\<close> with a note
  in it: no file name ends in \<open>.json\<close>, the switch is on, and the run completes, the
  stray file processed as an unsorted note.
\<close>

theorem single_note_switch_counterexample:
  "testOneNote (sampleConfig\<lparr>testOneNote := True\<rparr>) \<and>
   filter endsWithJson [''undefined''] = [] \<and>
   snd (run (sampleConfig\<lparr>testOneNote := True\<rparr>) [''undefined''] sampleFiles) = None \<and>
   notesUnsortedCount (fst (run (sampleConfig\<lparr>testOneNote := True\<rparr>) [''undefined''] sampleFiles))
     = 1"
  by (simp add: evalRun evalFlatten evalOrder)

section \<open>Ignored names and the segments of a path\<close>

lemma segmentsFrom_plain_prefix:
  "CHR ''.'' \<notin> set k \<Longrightarrow> segmentsFrom piece (k @ after) = segmentsFrom (rev k @ piece) after"
  by (induction k arbitrary: piece) auto

lemma segments_plain: "plainName k \<Longrightarrow> segments k = [k]"
  using segmentsFrom_plain_prefix [of k "[]" "[]"] by (simp add: segments_def plainName_def)

lemma segmentsFrom_split:
  "segmentsFrom piece (s @ ''.'' @ t) = segmentsFrom piece s @ segmentsFrom [] t"
  by (induction s arbitrary: piece) simp_all

lemma segments_extend: "plainName k \<Longrightarrow> segments (s @ ''.'' @ k) = segments s @ [k]"
  using segmentsFrom_split [of "[]" s k] segments_plain [of k] by (simp add: segments_def)

lemma segments_currentPathOf:
  assumes "plainName k" and "k \<in> A" and "set (segments s) \<subseteq> A"
  shows "set (segments (currentPathOf (Some s) k)) \<subseteq> A"
proof (cases "s = []")
  case True
  with assms show ?thesis by (simp add: segments_plain)
next
  case False
  have "segments (s @ ''.'' @ k) = segments s @ [k]" using assms(1) by (rule segments_extend)
  with assms False show ?thesis by simp
qed

lemma segments_pathVia_Some:
  "\<forall>k \<in> set ks. plainName k \<Longrightarrow> set ks \<subseteq> A \<Longrightarrow> set (segments s) \<subseteq> A \<Longrightarrow>
   set (segments (pathVia (Some s) ks)) \<subseteq> A"
proof (induction ks arbitrary: s)
  case Nil
  then show ?case by simp
next
  case (Cons k ks)
  have "set (segments (currentPathOf (Some s) k)) \<subseteq> A"
    using Cons.prems by (intro segments_currentPathOf) simp_all
  then have "set (segments (pathVia (Some (currentPathOf (Some s) k)) ks)) \<subseteq> A"
    using Cons.prems by (intro Cons.IH) simp_all
  then show ?case by simp
qed

lemma segments_pathVia:
  assumes "ks \<noteq> []" and "\<forall>k \<in> set ks. plainName k"
  shows "set (segments (pathVia None ks)) \<subseteq> set ks"
proof -
  from assms(1) obtain k ks' where ks: "ks = k # ks'" by (cases ks) auto
  have "set (segments k) \<subseteq> set ks" using assms(2) ks by (simp add: segments_plain)
  then have "set (segments (pathVia (Some k) ks')) \<subseteq> set ks"
    using assms(2) ks by (intro segments_pathVia_Some) auto
  then show ?thesis by (simp add: ks)
qed

lemma decimal_plain: "plainName (decimal n)"
proof -
  have "CHR ''.'' \<notin> set ''0123456789''" by simp
  with decimal_digits [of n] have "CHR ''.'' \<notin> set (decimal n)" by blast
  then show ?thesis by (simp add: plainName_def)
qed

lemma plainNames_ownProperties:
  assumes "plainNames v" and "p \<in> set (ownProperties v)"
  shows "plainName (fst p) \<and> plainNames (snd p)"
proof (cases v)
  case (JObj ps)
  with assms show ?thesis by (simp add: list_all_iff)
next
  case (JArr xs)
  with assms(2) have "p \<in> set (zip (map decimal [0..<length xs]) xs)" by simp
  then obtain n where n: "decimal n = fst p" "xs ! n = snd p" "n < length xs"
    by (auto simp: in_set_zip)
  from n(2,3) have "snd p \<in> set xs" using nth_mem [of n xs] by simp
  moreover have "plainName (fst p)" using decimal_plain [of n] n(1) by simp
  ultimately show ?thesis using assms(1) JArr by (simp add: list_all_iff)
qed (use assms in simp_all)

lemma atPath_plain:
  "plainNames v \<Longrightarrow> atPath v ks w \<Longrightarrow> \<forall>k \<in> set ks. plainName k"
proof (induction ks arbitrary: v)
  case Nil
  show ?case by simp
next
  case (Cons k ks)
  from Cons.prems(2) obtain p where p: "p \<in> set (ownProperties v)" "fst p = k"
    "atPath (snd p) ks w"
    by (auto simp: list_ex_iff)
  from plainNames_ownProperties [OF Cons.prems(1) p(1)]
  have "plainName k" "plainNames (snd p)" using p(2) by simp_all
  with Cons.IH [OF _ p(3)] show ?case by simp
qed

text \<open>
  C6 (as the code has it).  Every entry of the output was read through a chain of property
  names none of which is in the ignore list: its value sits at that chain in the record
  and its path is the chain joined by the code's own path construction.  A field named in
  the ignore list, at any depth, and everything below it therefore contribute no entry.
  When no property name in the record has a dot in it, no dot-separated segment of an
  emitted path is an ignored name, so no emitted path is the path of an ignored field or
  goes through one.
\<close>

theorem ignored_fields_contribute_nothing:
  assumes "e \<in> set (recursivelyGetProperties inputObj [] None)"
  shows "(\<exists>ks. ks \<noteq> [] \<and> atPath inputObj ks (snd e) \<and> fst e = pathVia None ks
              \<and> (\<forall>k \<in> set ks. k \<notin> set propertiesToIgnore)) \<and>
         (plainNames inputObj \<longrightarrow>
            (\<forall>seg \<in> set (segments (fst e)). seg \<notin> set propertiesToIgnore))"
proof -
  from assms obtain ks where o: "origin (ownProperties inputObj) None e ks"
    unfolding recursivelyGetProperties_def using loop_origin by blast
  then obtain k ks' where ks: "ks = k # ks'" by (cases ks) (simp_all add: origin_def)
  from o have at: "atPath inputObj ks (snd e)" and path: "fst e = pathVia None ks"
    and ni: "\<forall>k \<in> set ks. k \<notin> set propertiesToIgnore"
    unfolding ks origin_def by (simp_all add: list_all_iff)
  have "plainNames inputObj \<longrightarrow>
            (\<forall>seg \<in> set (segments (fst e)). seg \<notin> set propertiesToIgnore)"
  proof
    assume "plainNames inputObj"
    then have "\<forall>k \<in> set ks. plainName k" using at by (rule atPath_plain)
    then have "set (segments (fst e)) \<subseteq> set ks"
      unfolding path using ks by (intro segments_pathVia) simp
    with ni show "\<forall>seg \<in> set (segments (fst e)). seg \<notin> set propertiesToIgnore" by blast
  qed
  with at path ni ks show ?thesis by blast
qed

theorem ignored_fields_contribute_nothing_witness:
  "(''a.b'', JNum 1) \<in> set (recursivelyGetProperties
       (JObj [(''color'', JObj [(''x'', JNum 2)]), ([], JObj [(''a'', JObj [(''b'', JNum 1)])])])
       [] None) \<and>
   plainNames
     (JObj [(''color'', JObj [(''x'', JNum 2)]), ([], JObj [(''a'', JObj [(''b'', JNum 1)])])]) \<and>
   (\<exists>ks. ks \<noteq> [] \<and>
      atPath
        (JObj [(''color'', JObj [(''x'', JNum 2)]), ([], JObj [(''a'', JObj [(''b'', JNum 1)])])])
        ks (JNum 1)
      \<and> ''a.b'' = pathVia None ks \<and> (\<forall>k \<in> set ks. k \<notin> set propertiesToIgnore)) \<and>
   list_all (\<lambda>seg. seg \<notin> set propertiesToIgnore) (segments ''a.b'')"
proof -
  let ?r = "JObj [(''color'', JObj [(''x'', JNum 2)]),
                  ([], JObj [(''a'', JObj [(''b'', JNum 1)])])]"
  have h: "(''a.b'', JNum 1) \<in> set (recursivelyGetProperties ?r [] None)"
    by (simp add: recursivelyGetProperties_def propertiesToIgnore_def)
  have p: "plainNames ?r" by (simp add: plainName_def)
  from ignored_fields_contribute_nothing [OF h] p
  have "\<exists>ks. ks \<noteq> [] \<and> atPath ?r ks (JNum 1) \<and> ''a.b'' = pathVia None ks
              \<and> (\<forall>k \<in> set ks. k \<notin> set propertiesToIgnore)"
    and "\<forall>seg \<in> set (segments ''a.b''). seg \<notin> set propertiesToIgnore"
    by simp_all
  with h p show ?thesis by (simp only: list_all_iff simp_thms)
qed

text \<open>
  C6 (as stated) fails on a record with a dot in a property name: the field \<open>color\<close> is
  ignored with what it holds, and the other field, named \<open>color.shade\<close>, gives an entry
  whose path is that of the \<open>shade\<close> below \<open>color\<close>.
\<close>

theorem ignored_path_counterexample:
  "''color'' \<in> set propertiesToIgnore \<and>
   pathVia None [''color'', ''shade''] = ''color.shade'' \<and>
   recursivelyGetProperties
     (JObj [(''color'', JObj [(''shade'', JNum 1)]), (''color.shade'', JNum 2)]) [] None
     = [(''color.shade'', JNum 2)]"
  by (simp add: recursivelyGetProperties_def propertiesToIgnore_def)

end
